theory Spec2Isabelle
  imports Main "HOL-Library.List_Lexorder" "HOL-Library.Char_ord"
begin

section \<open>The zip archiver of terraform-provider-archive\<close>

text \<open>
  A shallow embedding of \<^verbatim>\<open>archive/zip_archiver.go\<close>. The archiver streams named entries
  into a zip container at one target path. The operating system, the Go standard library's
  file walk and the zip codec are collaborators: their calls are modelled by an environment
  that says, for each call, whether it fails and what it returns, and by a state that
  records what has reached the target. Go's \<^verbatim>\<open>error\<close> results are \<open>error option\<close>
  (\<open>None\<close> is \<^verbatim>\<open>nil\<close>); a run-time panic is an outcome of its own.
\<close>

subsection \<open>Values\<close>

text \<open>A Go \<^verbatim>\<open>[]byte\<close> and a Go \<^verbatim>\<open>string\<close> are both byte sequences.\<close>

type_synonym bytes = string

text \<open>An error is identified by its message.\<close>

datatype error = Error string

text \<open>\<^verbatim>\<open>fmt.Errorf("<prefix>%s", err)\<close>: a new error whose message is the prefix followed
  by the message of \<^verbatim>\<open>err\<close>.\<close>

fun Errorf :: "string \<Rightarrow> error \<Rightarrow> error" where
  "Errorf prefix (Error msg) = Error (prefix @ msg)"

text \<open>What a call of an operation does: it returns an \<^verbatim>\<open>error\<close> (\<open>None\<close> for
  \<^verbatim>\<open>nil\<close>), or it panics.\<close>

datatype outcome = Return "error option" | Panic

text \<open>\<^verbatim>\<open>os.FileInfo\<close>: the base name, the size, the type and permission bits of the mode,
  and the modification time. \<open>Irregular\<close> stands for every type that is neither a
  regular file nor a directory (symbolic link, device, pipe, socket).\<close>

datatype filetype = Regular | Directory | Irregular

record fileinfo =
  fi_Name :: string
  fi_Size :: nat
  fi_Type :: filetype
  fi_Perm :: nat
  fi_ModTime :: int

definition IsDir :: "fileinfo \<Rightarrow> bool" where
  "IsDir fi = (fi_Type fi = Directory)"

definition IsRegular :: "fileinfo \<Rightarrow> bool" where
  "IsRegular fi = (fi_Type fi = Regular)"

text \<open>\<^verbatim>\<open>zip.FileHeader\<close>, with the fields the archiver sets or that
  \<^verbatim>\<open>zip.FileInfoHeader\<close> derives from the file's stat; \<^verbatim>\<open>zip.Store\<close> is the zero
  value of the method.\<close>

datatype compression = Store | Deflate

record fileheader =
  fh_Name :: string
  fh_Method :: compression
  fh_Type :: filetype
  fh_Perm :: nat
  fh_ModTime :: int
  fh_Size :: nat

text \<open>An entry of the container: the header as it was passed to the writer, and the bytes
  written to it.\<close>

record entry =
  hdr :: fileheader
  data :: bytes

text \<open>The name of an entry as the container stores it: \<^verbatim>\<open>Close\<close> writes the length of
  the name into the central directory as a 16-bit number, so a name of more than 65535 bytes
  is stored with its length modulo 65536.\<close>

definition stored_name :: "entry \<Rightarrow> string" where
  "stored_name e = take (length (fh_Name (hdr e)) mod 65536) (fh_Name (hdr e))"


text \<open>The file system below a path whose \<^verbatim>\<open>Lstat\<close> succeeded, as \<^verbatim>\<open>filepath.Walk\<close>
  meets it: the \<^verbatim>\<open>os.FileInfo\<close> of the object, the error of listing it (\<open>None\<close> when
  the listing succeeds), and its children in the order of the listing, each with its name and
  the result of its own \<^verbatim>\<open>Lstat\<close>. An object that is not a directory is never listed;
  the children of a directory whose listing fails exist, but the walk does not learn of
  them.\<close>

datatype fsnode = Node fileinfo "error option" "(string \<times> (error + fsnode)) list"

subsection \<open>The environment and the state\<close>

text \<open>The environment decides the result of every call that leaves the archiver:
  \<^item> \<open>os_Stat\<close>, \<open>os_Lstat\<close>, \<open>ioutil_ReadFile\<close>: the file system as the calls see it;
  \<^item> \<open>os_Create_err\<close>: whether creating (truncating) the target fails;
  \<^item> \<open>Rel_err\<close>, \<open>FileInfoHeader_err\<close>: whether \<^verbatim>\<open>filepath.Rel\<close> and
    \<^verbatim>\<open>zip.FileInfoHeader\<close> fail;
  \<^item> \<open>prepare_err\<close>: whether \<^verbatim>\<open>CreateHeader\<close> fails before it records the header
    (closing the writer of the entry before, the compressor), given the entries so far;
  \<^item> \<open>writeHeader_err\<close>: whether writing the local header to the file fails, after
    \<^verbatim>\<open>CreateHeader\<close> has recorded the header;
  \<^item> \<open>Write_err\<close>: whether writing bytes to an entry fails, given the entries so far;
  \<^item> \<open>writer_Close_err\<close>, \<open>file_Close_err\<close>: whether finalizing the container and
    closing the target file fail.\<close>

record env =
  os_Stat :: "string \<Rightarrow> error + fileinfo"
  os_Lstat :: "string \<Rightarrow> error + fsnode"
  ioutil_ReadFile :: "string \<Rightarrow> error + bytes"
  os_Create_err :: "string \<Rightarrow> error option"
  Rel_err :: "string \<Rightarrow> string \<Rightarrow> error option"
  FileInfoHeader_err :: "fileinfo \<Rightarrow> error option"
  prepare_err :: "entry list \<Rightarrow> fileheader \<Rightarrow> error option"
  writeHeader_err :: "entry list \<Rightarrow> fileheader \<Rightarrow> error option"
  Write_err :: "entry list \<Rightarrow> bytes \<Rightarrow> error option"
  writer_Close_err :: "error option"
  file_Close_err :: "error option"

text \<open>The state: the three fields of \<^verbatim>\<open>zipArchiver\<close> (\<open>filewriter\<close> and \<open>writer\<close> say
  whether the pointer is non-nil), and the target as the calls have left it: how often it was
  created, the entries streamed into the container since it was last created, whether the
  container was finalized and the file closed without error, and how often each of the two
  was closed.\<close>

record zipArchiver =
  filepath :: string
  filewriter :: bool
  writer :: bool
  creates :: nat
  entries :: "entry list"
  finalized :: bool
  synced :: bool
  writer_closes :: nat
  file_closes :: nat

subsection \<open>The zip writer\<close>

text \<open>\<^verbatim>\<open>zip.FileInfoHeader\<close>: name, size, modification time and mode come from the
  \<^verbatim>\<open>os.FileInfo\<close>.\<close>

definition FileInfoHeader :: "env \<Rightarrow> fileinfo \<Rightarrow> error + fileheader" where
  "FileInfoHeader env fi =
     (case FileInfoHeader_err env fi of
        Some err \<Rightarrow> Inl err
      | None \<Rightarrow> Inr \<lparr>fh_Name = fi_Name fi, fh_Method = Store, fh_Type = fi_Type fi,
                      fh_Perm = fi_Perm fi, fh_ModTime = fi_ModTime fi, fh_Size = fi_Size fi\<rparr>)"

text \<open>\<^verbatim>\<open>(*zip.Writer).CreateHeader\<close>. It first closes the writer of the entry before and
  sets up the compressor; a failure there leaves the container as it was. It then appends the
  header to the directory of the container as a new, empty entry, and only then writes the
  local header, which fails with \<^verbatim>\<open>errLongName\<close> for a name of more than 65535 bytes
  and may fail in the file: the header of such a failed call stays in the directory, and
  \<^verbatim>\<open>Close\<close> writes it with the others. On success the returned writer is the entry's
  position.\<close>

definition errLongName :: error where
  "errLongName = Error ''zip: FileHeader.Name too long''"

definition CreateHeader :: "env \<Rightarrow> fileheader \<Rightarrow> zipArchiver \<Rightarrow> (error + nat) \<times> zipArchiver" where
  "CreateHeader env fh a =
     (case prepare_err env (entries a) fh of
        Some err \<Rightarrow> (Inl err, a)
      | None \<Rightarrow>
          (let a1 = a\<lparr>entries := entries a @ [\<lparr>hdr = fh, data = []\<rparr>]\<rparr>
           in if 65535 < length (fh_Name fh) then (Inl errLongName, a1)
              else
                (case writeHeader_err env (entries a) fh of
                   Some err \<Rightarrow> (Inl err, a1)
                 | None \<Rightarrow> (Inr (length (entries a)), a1))))"

text \<open>\<^verbatim>\<open>(*zip.Writer).Create\<close>: \<^verbatim>\<open>CreateHeader\<close> with a header that has the name and
  the method \<^verbatim>\<open>Deflate\<close>, and zero values elsewhere.\<close>

definition create_header :: "string \<Rightarrow> fileheader" where
  "create_header name = \<lparr>fh_Name = name, fh_Method = Deflate, fh_Type = Regular,
                          fh_Perm = 0, fh_ModTime = 0, fh_Size = 0\<rparr>"

definition Create :: "env \<Rightarrow> string \<Rightarrow> zipArchiver \<Rightarrow> (error + nat) \<times> zipArchiver" where
  "Create env name a = CreateHeader env (create_header name) a"

text \<open>\<^verbatim>\<open>f.Write(content)\<close> on the writer of entry \<open>f\<close>: on success the bytes are appended
  to the entry.\<close>

definition Write :: "env \<Rightarrow> nat \<Rightarrow> bytes \<Rightarrow> zipArchiver \<Rightarrow> error option \<times> zipArchiver" where
  "Write env f content a =
     (case Write_err env (entries a) content of
        Some err \<Rightarrow> (Some err, a)
      | None \<Rightarrow> (None,
          a\<lparr>entries := (entries a)[f := (entries a ! f)\<lparr>data := data (entries a ! f) @ content\<rparr>]\<rparr>))"

subsection \<open>open and close\<close>

text \<open>\<^verbatim>\<open>open\<close> (the name is a keyword of Isabelle, hence \<open>open_archive\<close>):
  \<^verbatim>\<open>os.Create\<close> creates or truncates the target; on success both pointers are set and
  the container is empty.\<close>

definition open_archive :: "env \<Rightarrow> zipArchiver \<Rightarrow> error option \<times> zipArchiver" where
  "open_archive env a =
     (case os_Create_err env (filepath a) of
        Some err \<Rightarrow> (Some err, a)
      | None \<Rightarrow> (None, a\<lparr>filewriter := True, writer := True, creates := Suc (creates a),
                          entries := [], finalized := False, synced := False\<rparr>))"

text \<open>\<^verbatim>\<open>close\<close>: each pointer that is set is closed and reset; the error of either
  \<^verbatim>\<open>Close\<close> is assigned to the blank identifier. It returns nothing.\<close>

definition close :: "env \<Rightarrow> zipArchiver \<Rightarrow> zipArchiver" where
  "close env a =
     (let a1 = (if writer a
                then a\<lparr>finalized := (writer_Close_err env = None),
                       writer_closes := Suc (writer_closes a), writer := False\<rparr>
                else a);
          a2 = (if filewriter a1
                then a1\<lparr>synced := (file_Close_err env = None),
                        file_closes := Suc (file_closes a1), filewriter := False\<rparr>
                else a1)
      in a2)"

subsection \<open>ArchiveContent\<close>

definition ArchiveContent :: "env \<Rightarrow> bytes \<Rightarrow> string \<Rightarrow> zipArchiver \<Rightarrow> outcome \<times> zipArchiver" where
  "ArchiveContent env content infilename a =
     (case open_archive env a of
        (Some err, a1) \<Rightarrow> (Return (Some err), a1)
      | (None, a1) \<Rightarrow>
          (case Create env infilename a1 of
             (Inl err, a2) \<Rightarrow> (Return (Some err), close env a2)
           | (Inr f, a2) \<Rightarrow>
               (case Write env f content a2 of
                  (err, a3) \<Rightarrow> (Return err, close env a3))))"

subsection \<open>ArchiveFile\<close>

text \<open>Modelled from the spec: \<^verbatim>\<open>assertValidFile\<close> is declared in another file of the
  package. The spec's precondition of \<^verbatim>\<open>ArchiveFile\<close> is that the path resolves to an
  existing regular file (not a directory, not absent, not a special file), and a path
  validation failure is one of: not found, is a directory, stat error.\<close>

definition assertValidFile :: "env \<Rightarrow> string \<Rightarrow> error + fileinfo" where
  "assertValidFile env infilename =
     (case os_Stat env infilename of
        Inl err \<Rightarrow> Inl err
      | Inr fi \<Rightarrow>
          if IsRegular fi then Inr fi
          else Inl (Error (''could not archive, not a regular file: '' @ infilename)))"

definition ArchiveFile :: "env \<Rightarrow> string \<Rightarrow> zipArchiver \<Rightarrow> outcome \<times> zipArchiver" where
  "ArchiveFile env infilename a =
     (case assertValidFile env infilename of
        Inl err \<Rightarrow> (Return (Some err), a)
      | Inr fi \<Rightarrow>
     (case ioutil_ReadFile env infilename of
        Inl err \<Rightarrow> (Return (Some err), a)
      | Inr content \<Rightarrow>
     (case open_archive env a of
        (Some err, a1) \<Rightarrow> (Return (Some err), a1)
      | (None, a1) \<Rightarrow>
     (case FileInfoHeader env fi of
        Inl err \<Rightarrow> (Return (Some (Errorf ''error creating file header: '' err)), close env a1)
      | Inr fh \<Rightarrow>
     (case CreateHeader env (fh\<lparr>fh_Name := fi_Name fi, fh_Method := Deflate\<rparr>) a1 of
        (Inl err, a2) \<Rightarrow>
          (Return (Some (Errorf ''error creating file inside archive: '' err)), close env a2)
      | (Inr f, a2) \<Rightarrow>
     (case Write env f content a2 of
        (err, a3) \<Rightarrow> (Return err, close env a3)))))))"

subsection \<open>ArchiveDir\<close>

text \<open>Modelled from the spec: \<^verbatim>\<open>assertValidDir\<close> is declared in another file of the
  package. The spec's precondition of \<^verbatim>\<open>ArchiveDir\<close> is that the root path resolves to
  an existing directory.\<close>

definition assertValidDir :: "env \<Rightarrow> string \<Rightarrow> error + fileinfo" where
  "assertValidDir env indirname =
     (case os_Stat env indirname of
        Inl err \<Rightarrow> Inl err
      | Inr fi \<Rightarrow>
          if IsDir fi then Inr fi
          else Inl (Error (''could not archive, not a directory: '' @ indirname)))"

text \<open>\<^verbatim>\<open>filepath.Join\<close> of a path and the name of one of its children, and
  \<^verbatim>\<open>filepath.Rel\<close> of the root of a walk and a path of that walk, for a root written
  without redundant separators or dots: the root itself is \<^verbatim>\<open>"."\<close>, and a path below
  it is what follows the root and one separator.\<close>

definition Join :: "string \<Rightarrow> string \<Rightarrow> string" where
  "Join path name = path @ ''/'' @ name"

definition Rel :: "env \<Rightarrow> string \<Rightarrow> string \<Rightarrow> error + string" where
  "Rel env basepath targpath =
     (case Rel_err env basepath targpath of
        Some err \<Rightarrow> Inl err
      | None \<Rightarrow>
          if targpath = basepath then Inr ''.''
          else Inr (drop (Suc (length basepath)) targpath))"

text \<open>The function literal that \<^verbatim>\<open>ArchiveDir\<close> passes to \<^verbatim>\<open>filepath.Walk\<close>. Its first
  statement calls \<^verbatim>\<open>info.IsDir()\<close>: on a nil \<^verbatim>\<open>info\<close> that is a nil dereference.\<close>

definition walkFn ::
  "env \<Rightarrow> string \<Rightarrow> string \<Rightarrow> fileinfo option \<Rightarrow> error option \<Rightarrow> zipArchiver
     \<Rightarrow> outcome \<times> zipArchiver" where
  "walkFn env indirname path info err a =
     (case info of
        None \<Rightarrow> (Panic, a)
      | Some fi \<Rightarrow>
     if IsDir fi then (Return None, a)
     else
     (case err of
        Some e \<Rightarrow> (Return (Some e), a)
      | None \<Rightarrow>
     (case Rel env indirname path of
        Inl e \<Rightarrow> (Return (Some (Errorf ''error relativizing file for archival: '' e)), a)
      | Inr relname \<Rightarrow>
     (case FileInfoHeader env fi of
        Inl e \<Rightarrow> (Return (Some (Errorf ''error creating file header: '' e)), a)
      | Inr fh \<Rightarrow>
     (case CreateHeader env (fh\<lparr>fh_Name := relname, fh_Method := Deflate\<rparr>) a of
        (Inl e, a1) \<Rightarrow> (Return (Some (Errorf ''error creating file inside archive: '' e)), a1)
      | (Inr f, a1) \<Rightarrow>
     (case ioutil_ReadFile env path of
        Inl e \<Rightarrow> (Return (Some (Errorf ''error reading file for archival: '' e)), a1)
      | Inr content \<Rightarrow>
     (case Write env f content a1 of
        (e, a2) \<Rightarrow> (Return e, a2))))))))"

text \<open>\<^verbatim>\<open>filepath.Walk\<close> of the Go standard library, for a function that never returns
  \<^verbatim>\<open>filepath.SkipDir\<close> (the one above returns nil, an error of the walk, an error made by
  \<^verbatim>\<open>fmt.Errorf\<close> or an error of the zip writer). \<open>walk\<close> is its recursive helper: an
  object that is not a directory is visited; a directory is listed, then visited with the
  error of the listing, if any, and the walk goes on into its children when both the listing
  and the visit succeeded. \<open>walk_children\<close> is the loop over the names: a child whose
  \<^verbatim>\<open>Lstat\<close> fails is visited with a nil \<^verbatim>\<open>info\<close> and the error. The first visit that
  does not return nil ends the walk with its result.\<close>

function
  walk :: "(string \<Rightarrow> fileinfo option \<Rightarrow> error option \<Rightarrow> zipArchiver \<Rightarrow> outcome \<times> zipArchiver)
             \<Rightarrow> string \<Rightarrow> fsnode \<Rightarrow> zipArchiver \<Rightarrow> outcome \<times> zipArchiver"
and
  walk_children ::
    "(string \<Rightarrow> fileinfo option \<Rightarrow> error option \<Rightarrow> zipArchiver \<Rightarrow> outcome \<times> zipArchiver)
       \<Rightarrow> string \<Rightarrow> (string \<times> (error + fsnode)) list \<Rightarrow> zipArchiver \<Rightarrow> outcome \<times> zipArchiver"
where
  "walk fn path (Node info listing_err names) a =
     (if \<not> IsDir info then fn path (Some info) None a
      else
        (case listing_err of
           Some err \<Rightarrow> fn path (Some info) (Some err) a
         | None \<Rightarrow>
             (case fn path (Some info) None a of
                (Return None, a1) \<Rightarrow> walk_children fn path names a1
              | (err1, a1) \<Rightarrow> (err1, a1))))"
| "walk_children fn path [] a = (Return None, a)"
| "walk_children fn path ((name, Inl err) # names) a =
     (case fn (Join path name) None (Some err) a of
        (Return None, a1) \<Rightarrow> walk_children fn path names a1
      | (err1, a1) \<Rightarrow> (err1, a1))"
| "walk_children fn path ((name, Inr node) # names) a =
     (case walk fn (Join path name) node a of
        (Return None, a1) \<Rightarrow> walk_children fn path names a1
      | (err1, a1) \<Rightarrow> (err1, a1))"
  by pat_completeness auto
termination
  by (relation "measure (\<lambda>x. case x of
          Inl (fn, path, node, a) \<Rightarrow> 2 * size node
        | Inr (fn, path, names, a) \<Rightarrow>
            Suc (2 * size_list (size_prod (\<lambda>x. 0) (size_sum (\<lambda>x. 0) size)) names))") auto

definition Walk ::
  "env \<Rightarrow> string
     \<Rightarrow> (string \<Rightarrow> fileinfo option \<Rightarrow> error option \<Rightarrow> zipArchiver \<Rightarrow> outcome \<times> zipArchiver)
     \<Rightarrow> zipArchiver \<Rightarrow> outcome \<times> zipArchiver" where
  "Walk env root fn a =
     (case os_Lstat env root of
        Inl err \<Rightarrow> fn root None (Some err) a
      | Inr node \<Rightarrow> walk fn root node a)"

text \<open>The deferred \<^verbatim>\<open>close\<close> runs when the walk has returned, and also when it panics.\<close>

definition ArchiveDir :: "env \<Rightarrow> string \<Rightarrow> zipArchiver \<Rightarrow> outcome \<times> zipArchiver" where
  "ArchiveDir env indirname a =
     (case assertValidDir env indirname of
        Inl err \<Rightarrow> (Return (Some err), a)
      | Inr fi \<Rightarrow>
     (case open_archive env a of
        (Some err, a1) \<Rightarrow> (Return (Some err), a1)
      | (None, a1) \<Rightarrow>
     (case Walk env indirname (walkFn env indirname) a1 of
        (r, a2) \<Rightarrow> (r, close env a2))))"

subsection \<open>ArchiveMultiple\<close>

text \<open>A Go map is given by its pairs in the order in which \<^verbatim>\<open>range\<close> yields them; its
  keys are distinct. \<open>range_keys\<close> is the loop that fills \<^verbatim>\<open>keys\<close>, \<open>index\<close> is
  \<^verbatim>\<open>content[filename]\<close> (nil for a key that is absent), and \<^verbatim>\<open>sort.Strings\<close> sorts by
  the order \<^verbatim>\<open><\<close> of Go strings, which compares byte by byte.\<close>

definition range_keys :: "(string \<times> bytes) list \<Rightarrow> string list" where
  "range_keys content = map fst content"

definition index :: "(string \<times> bytes) list \<Rightarrow> string \<Rightarrow> bytes" where
  "index content filename = (case map_of content filename of None \<Rightarrow> [] | Some v \<Rightarrow> v)"

definition sort_Strings :: "string list \<Rightarrow> string list" where
  "sort_Strings keys = sort keys"

fun write_all :: "env \<Rightarrow> (string \<times> bytes) list \<Rightarrow> string list \<Rightarrow> zipArchiver
    \<Rightarrow> error option \<times> zipArchiver" where
  "write_all env content [] a = (None, a)"
| "write_all env content (filename # keys) a =
     (case Create env filename a of
        (Inl err, a1) \<Rightarrow> (Some err, a1)
      | (Inr f, a1) \<Rightarrow>
          (case Write env f (index content filename) a1 of
             (Some err, a2) \<Rightarrow> (Some err, a2)
           | (None, a2) \<Rightarrow> write_all env content keys a2))"

definition ArchiveMultiple :: "env \<Rightarrow> (string \<times> bytes) list \<Rightarrow> zipArchiver \<Rightarrow> outcome \<times> zipArchiver" where
  "ArchiveMultiple env content a =
     (case open_archive env a of
        (Some err, a1) \<Rightarrow> (Return (Some err), a1)
      | (None, a1) \<Rightarrow>
          (case write_all env content (sort_Strings (range_keys content)) a1 of
             (err, a2) \<Rightarrow> (Return err, close env a2)))"

subsection \<open>The walk as a sequence of visits\<close>

text \<open>A visit is one call of the function passed to the walk: the path, the
  \<^verbatim>\<open>os.FileInfo\<close> (or nil) and the error (or nil). \<open>visits\<close> lists the visits of a walk
  in which every visit returns nil, and \<open>run\<close> makes them in turn up to the first one that
  does not return nil.\<close>

type_synonym visit = "string \<times> fileinfo option \<times> error option"

function visits :: "string \<Rightarrow> fsnode \<Rightarrow> visit list"
and visits_children :: "string \<Rightarrow> (string \<times> (error + fsnode)) list \<Rightarrow> visit list" where
  "visits path (Node info listing_err names) =
     (if \<not> IsDir info then [(path, Some info, None)]
      else
        (case listing_err of
           Some err \<Rightarrow> [(path, Some info, Some err)]
         | None \<Rightarrow> (path, Some info, None) # visits_children path names))"
| "visits_children path [] = []"
| "visits_children path ((name, Inl err) # names) =
     (Join path name, None, Some err) # visits_children path names"
| "visits_children path ((name, Inr node) # names) =
     visits (Join path name) node @ visits_children path names"
  by pat_completeness auto
termination
  by (relation "measure (\<lambda>x. case x of
          Inl (path, node) \<Rightarrow> 2 * size node
        | Inr (path, names) \<Rightarrow>
            Suc (2 * size_list (size_prod (\<lambda>x. 0) (size_sum (\<lambda>x. 0) size)) names))") auto

fun run :: "(string \<Rightarrow> fileinfo option \<Rightarrow> error option \<Rightarrow> zipArchiver \<Rightarrow> outcome \<times> zipArchiver)
    \<Rightarrow> visit list \<Rightarrow> zipArchiver \<Rightarrow> outcome \<times> zipArchiver" where
  "run fn [] a = (Return None, a)"
| "run fn ((path, info, err) # vs) a =
     (case fn path info err a of
        (Return None, a1) \<Rightarrow> run fn vs a1
      | (err1, a1) \<Rightarrow> (err1, a1))"

text \<open>The visits of objects that are not directories.\<close>

fun nondirs :: "visit list \<Rightarrow> (string \<times> fileinfo) list" where
  "nondirs [] = []"
| "nondirs ((path, None, err) # vs) = nondirs vs"
| "nondirs ((path, Some info, err) # vs) =
     (if IsDir info then nondirs vs else (path, info) # nondirs vs)"

subsection \<open>Notions of the specification\<close>

text \<open>The objects under a root that are not directories, with their paths, in the order of
  the walk; those below a directory whose listing fails are among them.\<close>

function files_under :: "string \<Rightarrow> fsnode \<Rightarrow> (string \<times> fileinfo) list"
and files_under_children ::
  "string \<Rightarrow> (string \<times> (error + fsnode)) list \<Rightarrow> (string \<times> fileinfo) list" where
  "files_under path (Node info listing_err names) =
     (if \<not> IsDir info then [(path, info)] else files_under_children path names)"
| "files_under_children path [] = []"
| "files_under_children path ((name, Inl err) # names) = files_under_children path names"
| "files_under_children path ((name, Inr node) # names) =
     files_under (Join path name) node @ files_under_children path names"
  by pat_completeness auto
termination
  by (relation "measure (\<lambda>x. case x of
          Inl (path, node) \<Rightarrow> 2 * size node
        | Inr (path, names) \<Rightarrow>
            Suc (2 * size_list (size_prod (\<lambda>x. 0) (size_sum (\<lambda>x. 0) size)) names))") auto

text \<open>A tree is readable when every directory in it can be listed and the \<^verbatim>\<open>Lstat\<close> of
  every child succeeds.\<close>

function readable :: "fsnode \<Rightarrow> bool"
and readable_children :: "(string \<times> (error + fsnode)) list \<Rightarrow> bool" where
  "readable (Node info listing_err names) =
     (if IsDir info then listing_err = None \<and> readable_children names else True)"
| "readable_children [] = True"
| "readable_children ((name, Inl err) # names) = False"
| "readable_children ((name, Inr node) # names) = (readable node \<and> readable_children names)"
  by pat_completeness auto
termination
  by (relation "measure (\<lambda>x. case x of
          Inl node \<Rightarrow> 2 * size node
        | Inr names \<Rightarrow>
            Suc (2 * size_list (size_prod (\<lambda>x. 0) (size_sum (\<lambda>x. 0) size)) names))") auto

text \<open>The names in a directory are distinct and contain no separator, as a file system has
  them.\<close>

function proper_names :: "fsnode \<Rightarrow> bool"
and proper_children :: "(string \<times> (error + fsnode)) list \<Rightarrow> bool" where
  "proper_names (Node info listing_err names) =
     (distinct (map fst names) \<and> proper_children names)"
| "proper_children [] = True"
| "proper_children ((name, Inl err) # names) =
     (CHR ''/'' \<notin> set name \<and> proper_children names)"
| "proper_children ((name, Inr node) # names) =
     (CHR ''/'' \<notin> set name \<and> proper_names node \<and> proper_children names)"
  by pat_completeness auto
termination
  by (relation "measure (\<lambda>x. case x of
          Inl node \<Rightarrow> 2 * size node
        | Inr names \<Rightarrow>
            Suc (2 * size_list (size_prod (\<lambda>x. 0) (size_sum (\<lambda>x. 0) size)) names))") auto

text \<open>An entry archives the object at a path with a given \<^verbatim>\<open>os.FileInfo\<close>: its name is
  the path relative to the root, its bytes are those read from the path, its method is
  \<^verbatim>\<open>Deflate\<close>, and mode and modification time are those of the \<^verbatim>\<open>os.FileInfo\<close>.\<close>

definition archives :: "env \<Rightarrow> string \<Rightarrow> entry \<Rightarrow> string \<times> fileinfo \<Rightarrow> bool" where
  "archives env root e pf =
     (Rel env root (fst pf) = Inr (fh_Name (hdr e)) \<and>
      stored_name e = fh_Name (hdr e) \<and>
      ioutil_ReadFile env (fst pf) = Inr (data e) \<and>
      fh_Method (hdr e) = Deflate \<and>
      fh_Type (hdr e) = fi_Type (snd pf) \<and>
      fh_Perm (hdr e) = fi_Perm (snd pf) \<and>
      fh_ModTime (hdr e) = fi_ModTime (snd pf))"

subsection \<open>Example environments\<close>

text \<open>A directory \<^verbatim>\<open>d\<close> with \<^verbatim>\<open>sub/x.txt\<close> and \<^verbatim>\<open>y.txt\<close>, a file
  \<^verbatim>\<open>locked.txt\<close> that can be stat'ed but not read, and collaborators that never fail.\<close>

definition file_info :: "string \<Rightarrow> fileinfo" where
  "file_info name = \<lparr>fi_Name = name, fi_Size = 1, fi_Type = Regular, fi_Perm = 420,
                       fi_ModTime = 1500000000\<rparr>"

definition dir_info :: "string \<Rightarrow> fileinfo" where
  "dir_info name = \<lparr>fi_Name = name, fi_Size = 4096, fi_Type = Directory, fi_Perm = 493,
                      fi_ModTime = 1500000000\<rparr>"

definition link_info :: "string \<Rightarrow> fileinfo" where
  "link_info name = \<lparr>fi_Name = name, fi_Size = 5, fi_Type = Irregular, fi_Perm = 511,
                       fi_ModTime = 1500000000\<rparr>"

definition example_tree :: fsnode where
  "example_tree =
     Node (dir_info ''d'') None
       [(''sub'', Inr (Node (dir_info ''sub'') None
                    [(''x.txt'', Inr (Node (file_info ''x.txt'') None []))])),
        (''y.txt'', Inr (Node (file_info ''y.txt'') None []))]"

definition example_env :: env where
  "example_env =
     \<lparr>os_Stat = (\<lambda>p. if p = ''d'' then Inr (dir_info ''d'')
                     else if p = ''d/y.txt'' then Inr (file_info ''y.txt'')
                     else if p = ''locked.txt'' then Inr (file_info ''locked.txt'')
                     else Inl (Error ''no such file or directory'')),
      os_Lstat = (\<lambda>p. if p = ''d'' then Inr example_tree
                      else Inl (Error ''no such file or directory'')),
      ioutil_ReadFile = (\<lambda>p. if p = ''d/sub/x.txt'' then Inr ''X''
                             else if p = ''d/y.txt'' then Inr ''Y''
                             else Inl (Error ''permission denied'')),
      os_Create_err = (\<lambda>p. None),
      Rel_err = (\<lambda>basepath targpath. None),
      FileInfoHeader_err = (\<lambda>fi. None),
      prepare_err = (\<lambda>es fh. None),
      writeHeader_err = (\<lambda>es fh. None),
      Write_err = (\<lambda>es content. None),
      writer_Close_err = None,
      file_Close_err = None\<rparr>"

text \<open>The same directory when \<^verbatim>\<open>sub\<close> cannot be listed.\<close>

definition unlisted_tree :: fsnode where
  "unlisted_tree =
     Node (dir_info ''d'') None
       [(''sub'', Inr (Node (dir_info ''sub'') (Some (Error ''open d/sub: permission denied''))
                    [(''x.txt'', Inr (Node (file_info ''x.txt'') None []))])),
        (''y.txt'', Inr (Node (file_info ''y.txt'') None []))]"

definition unlisted_env :: env where
  "unlisted_env =
     example_env\<lparr>os_Lstat := (\<lambda>p. if p = ''d'' then Inr unlisted_tree
                                   else Inl (Error ''no such file or directory''))\<rparr>"

text \<open>The same directory when \<^verbatim>\<open>sub\<close> can be listed but not searched: the
  \<^verbatim>\<open>Lstat\<close> of \<^verbatim>\<open>sub/x.txt\<close> fails.\<close>

definition unsearchable_tree :: fsnode where
  "unsearchable_tree =
     Node (dir_info ''d'') None
       [(''sub'', Inr (Node (dir_info ''sub'') None
                    [(''x.txt'', Inl (Error ''lstat d/sub/x.txt: permission denied''))])),
        (''y.txt'', Inr (Node (file_info ''y.txt'') None []))]"

definition unsearchable_env :: env where
  "unsearchable_env =
     example_env\<lparr>os_Lstat := (\<lambda>p. if p = ''d'' then Inr unsearchable_tree
                                   else Inl (Error ''no such file or directory''))\<rparr>"

text \<open>A directory \<^verbatim>\<open>d\<close> that holds one symbolic link \<^verbatim>\<open>l\<close> to a file.\<close>

definition link_tree :: fsnode where
  "link_tree = Node (dir_info ''d'') None [(''l'', Inr (Node (link_info ''l'') None []))]"

definition link_env :: env where
  "link_env =
     example_env\<lparr>os_Lstat := (\<lambda>p. if p = ''d'' then Inr link_tree
                                   else Inl (Error ''no such file or directory'')),
                 ioutil_ReadFile := (\<lambda>p. if p = ''d/l'' then Inr ''Y''
                                          else Inl (Error ''permission denied''))\<rparr>"

text \<open>An archiver as \<^verbatim>\<open>newZipArchiver\<close> returns it, before any call.\<close>

definition newZipArchiver :: "string \<Rightarrow> zipArchiver" where
  "newZipArchiver path = \<lparr>filepath = path, filewriter = False, writer = False, creates = 0,
                          entries = [], finalized = False, synced = False, writer_closes = 0,
                          file_closes = 0\<rparr>"

text \<open>What the operations are said to do with the target: the writer and the file have been
  closed as often in a call as the target has been created in it.\<close>

definition closed_as_often_as_created :: "zipArchiver \<Rightarrow> zipArchiver \<Rightarrow> bool" where
  "closed_as_often_as_created a a' =
     (writer_closes a' + creates a = writer_closes a + creates a' \<and>
      file_closes a' + creates a = file_closes a + creates a')"

text \<open>An environment with other results of the two \<^verbatim>\<open>Close\<close> calls.\<close>

definition with_close_errors :: "env \<Rightarrow> error option \<Rightarrow> error option \<Rightarrow> env" where
  "with_close_errors env werr ferr = env\<lparr>writer_Close_err := werr, file_Close_err := ferr\<rparr>"

text \<open>A call leaves the state as it was, or the names of the headers in the container, as
  they were passed to the writer, are pairwise distinct.\<close>

definition wrote_distinct_names :: "zipArchiver \<Rightarrow> zipArchiver \<Rightarrow> bool" where
  "wrote_distinct_names a a' = (a' = a \<or> distinct (map (fh_Name \<circ> hdr) (entries a')))"

text \<open>A map with two keys made of the same byte, 4464 and 70000 bytes long: the second is
  too long for a header, and 70000 is 4464 modulo 65536.\<close>

definition long_name :: "nat \<Rightarrow> string" where
  "long_name n = replicate n CHR ''n''"

definition long_files :: "(string \<times> bytes) list" where
  "long_files = [(long_name 70000, ''2''), (long_name 4464, ''1'')]"

text \<open>A path is below another when it is that path or continues it after a separator.\<close>

definition below :: "string \<Rightarrow> string \<Rightarrow> bool" where
  "below q p = (p = q \<or> take (Suc (length q)) p = q @ ''/'')"

section \<open>Properties\<close>

subsection \<open>The zip writer, open and close\<close>

lemmas op_defs = open_archive_def Create_def CreateHeader_def Write_def close_def Let_def
  FileInfoHeader_def create_header_def

lemma close_entries: "entries (close env a) = entries a"
  by (simp add: close_def Let_def)

lemma close_finalized: "writer a \<Longrightarrow> finalized (close env a) = (writer_Close_err env = None)"
  by (simp add: close_def Let_def)

lemma stored_name_fit: "length (fh_Name (hdr e)) \<le> 65535 \<Longrightarrow> stored_name e = fh_Name (hdr e)"
  by (simp add: stored_name_def)

lemma CreateHeader_failed:
  "CreateHeader env fh a = (Inl err, a1) \<Longrightarrow>
     a1 = a \<or> a1 = a\<lparr>entries := entries a @ [\<lparr>hdr = fh, data = []\<rparr>]\<rparr>"
  by (auto simp: CreateHeader_def Let_def split: option.splits if_splits)

lemma CreateHeader_done:
  "CreateHeader env fh a = (Inr f, a1) \<Longrightarrow>
     f = length (entries a) \<and> length (fh_Name fh) \<le> 65535 \<and>
     a1 = a\<lparr>entries := entries a @ [\<lparr>hdr = fh, data = []\<rparr>]\<rparr>"
  by (auto simp: CreateHeader_def Let_def split: option.splits if_splits)

lemma Write_last:
  "Write env (length es) c (a\<lparr>entries := es @ [\<lparr>hdr = fh, data = []\<rparr>]\<rparr>) = (r, a2) \<Longrightarrow>
     (r \<noteq> None \<and> a2 = a\<lparr>entries := es @ [\<lparr>hdr = fh, data = []\<rparr>]\<rparr>) \<or>
     (r = None \<and> a2 = a\<lparr>entries := es @ [\<lparr>hdr = fh, data = c\<rparr>]\<rparr>)"
  by (auto simp: Write_def split: option.splits)

lemma write_one_failed_create:
  "Create env k a = (Inl err, a1) \<Longrightarrow>
     a1 = a \<or> a1 = a\<lparr>entries := entries a @ [\<lparr>hdr = create_header k, data = []\<rparr>]\<rparr>"
  unfolding Create_def by (rule CreateHeader_failed)

lemma write_one_failed_write:
  "Create env k a = (Inr f, a1) \<Longrightarrow> Write env f c a1 = (Some err, a2) \<Longrightarrow>
     a2 = a\<lparr>entries := entries a @ [\<lparr>hdr = create_header k, data = []\<rparr>]\<rparr>"
  unfolding Create_def by (auto dest!: CreateHeader_done dest: Write_last)

lemma write_one:
  "Create env k a = (Inr f, a1) \<Longrightarrow> Write env f c a1 = (None, a2) \<Longrightarrow>
     a2 = a\<lparr>entries := entries a @ [\<lparr>hdr = create_header k, data = c\<rparr>]\<rparr>"
  unfolding Create_def by (auto dest!: CreateHeader_done dest: Write_last)

lemma write_one_fits:
  "Create env k a = (Inr f, a1) \<Longrightarrow> length k \<le> 65535"
  unfolding Create_def by (auto dest!: CreateHeader_done simp: create_header_def)

subsection \<open>ArchiveContent\<close>

text \<open>
  C4. When \<^verbatim>\<open>ArchiveContent\<close> returns nil, the container holds exactly one entry: its
  name is the given entry name, as passed to the writer and as stored, and its bytes are the
  given content, for every content (also the empty one) and every name (also, though the
  claim does not ask for it, the empty one). The entries are those streamed into the
  container; the container is finalized exactly when closing the writer reports no error,
  which the operation does not return.
\<close>

theorem ArchiveContent_roundtrip:
  assumes "ArchiveContent env content infilename a = (Return None, a')"
  shows "entries a' = [\<lparr>hdr = create_header infilename, data = content\<rparr>]
         \<and> fh_Name (hdr (hd (entries a'))) = infilename
         \<and> data (hd (entries a')) = content
         \<and> finalized a' = (writer_Close_err env = None)
         \<and> map stored_name (entries a') = [infilename]"
proof -
  define a1 where "a1 = a\<lparr>filewriter := True, writer := True, creates := Suc (creates a),
                          entries := [], finalized := False, synced := False\<rparr>"
  from assms obtain f a2 a3 where
    c: "Create env infilename a1 = (Inr f, a2)" and w: "Write env f content a2 = (None, a3)"
    and a': "a' = close env a3"
    by (auto simp: ArchiveContent_def open_archive_def a1_def
          split: option.splits sum.splits prod.splits)
  from write_one [OF c w]
  have a3: "a3 = a1\<lparr>entries := [\<lparr>hdr = create_header infilename, data = content\<rparr>]\<rparr>"
    by (simp add: a1_def)
  from write_one_fits [OF c] have "length infilename \<le> 65535" .
  then have "stored_name \<lparr>hdr = create_header infilename, data = content\<rparr> = infilename"
    by (simp add: stored_name_fit create_header_def)
  with a' a3 show ?thesis
    by (simp add: close_def Let_def a1_def create_header_def)
qed

theorem ArchiveContent_roundtrip_witness:
  "fst (ArchiveContent example_env ''1'' ''a.txt'' (newZipArchiver ''out.zip'')) = Return None
   \<and> entries (snd (ArchiveContent example_env ''1'' ''a.txt'' (newZipArchiver ''out.zip''))) =
       [\<lparr>hdr = create_header ''a.txt'', data = ''1''\<rparr>]
   \<and> finalized (snd (ArchiveContent example_env ''1'' ''a.txt'' (newZipArchiver ''out.zip'')))
   \<and> map stored_name
        (entries (snd (ArchiveContent example_env ''1'' ''a.txt'' (newZipArchiver ''out.zip'')))) =
      [''a.txt'']"
proof -
  let ?run = "ArchiveContent example_env ''1'' ''a.txt'' (newZipArchiver ''out.zip'')"
  have r: "fst ?run = Return None"
    by (simp add: ArchiveContent_def op_defs example_env_def)
  have c: "writer_Close_err example_env = None"
    by (simp add: example_env_def)
  have run: "?run = (Return None, snd ?run)"
    using r by (simp add: prod_eq_iff)
  from ArchiveContent_roundtrip [OF run] c have f: "finalized (snd ?run)" by simp
  from ArchiveContent_roundtrip [OF run] r f show ?thesis by blast
qed

subsection \<open>ArchiveFile\<close>

text \<open>
  C5. When \<^verbatim>\<open>ArchiveFile\<close> returns nil, the path has passed the validation, which
  stat'ed it as a regular file, and has been read, and the container holds exactly one entry:
  its name, as passed to the writer and as stored, is the name of the \<^verbatim>\<open>os.FileInfo\<close>
  (the base name of the file), its bytes are the bytes read from the path, its mode and
  modification time are those of the \<^verbatim>\<open>os.FileInfo\<close>, as is the size in the header
  passed to the writer, and its method is \<^verbatim>\<open>Deflate\<close>. The container is finalized
  exactly when closing the writer reports no error, which the operation does not return.
\<close>

theorem ArchiveFile_entry:
  assumes "ArchiveFile env infilename a = (Return None, a')"
  shows "\<exists>fi content.
           assertValidFile env infilename = Inr fi \<and>
           os_Stat env infilename = Inr fi \<and> IsRegular fi \<and>
           ioutil_ReadFile env infilename = Inr content \<and>
           entries a' =
             [\<lparr>hdr = \<lparr>fh_Name = fi_Name fi, fh_Method = Deflate, fh_Type = fi_Type fi,
                      fh_Perm = fi_Perm fi, fh_ModTime = fi_ModTime fi, fh_Size = fi_Size fi\<rparr>,
               data = content\<rparr>] \<and>
           map stored_name (entries a') = [fi_Name fi] \<and>
           finalized a' = (writer_Close_err env = None)"
proof -
  define a1 where "a1 = a\<lparr>filewriter := True, writer := True, creates := Suc (creates a),
                          entries := [], finalized := False, synced := False\<rparr>"
  from assms obtain fi where v: "assertValidFile env infilename = Inr fi"
    by (auto simp: ArchiveFile_def split: sum.splits)
  then have s: "os_Stat env infilename = Inr fi \<and> IsRegular fi"
    by (auto simp: assertValidFile_def split: sum.splits if_splits)
  from assms v obtain content where c: "ioutil_ReadFile env infilename = Inr content"
    by (auto simp: ArchiveFile_def split: sum.splits)
  let ?fh = "\<lparr>fh_Name = fi_Name fi, fh_Method = Deflate, fh_Type = fi_Type fi,
              fh_Perm = fi_Perm fi, fh_ModTime = fi_ModTime fi, fh_Size = fi_Size fi\<rparr>"
  from assms v c obtain f a2 a3 where
    h: "CreateHeader env ?fh a1 = (Inr f, a2)" and w: "Write env f content a2 = (None, a3)"
    and a': "a' = close env a3"
    by (auto simp: ArchiveFile_def open_archive_def FileInfoHeader_def a1_def
          split: option.splits sum.splits prod.splits)
  from CreateHeader_done [OF h] have f: "f = 0" and n: "length (fi_Name fi) \<le> 65535"
    and a2: "a2 = a1\<lparr>entries := [\<lparr>hdr = ?fh, data = []\<rparr>]\<rparr>"
    by (simp_all add: a1_def)
  from Write_last [where env = env and es = "[]" and c = content and a = a1 and fh = ?fh
                     and r = None and ?a2.0 = a3] w f a2
  have a3: "a3 = a1\<lparr>entries := [\<lparr>hdr = ?fh, data = content\<rparr>]\<rparr>"
    by simp
  from n have "stored_name \<lparr>hdr = ?fh, data = content\<rparr> = fi_Name fi"
    by (simp add: stored_name_fit)
  with a' a3 have e: "entries a' = [\<lparr>hdr = ?fh, data = content\<rparr>]"
    and n: "map stored_name (entries a') = [fi_Name fi]"
    and f: "finalized a' = (writer_Close_err env = None)"
    by (simp_all add: close_def Let_def a1_def)
  from v s c e n f show ?thesis by (intro exI [of _ fi] exI [of _ content]) blast
qed

theorem ArchiveFile_entry_witness:
  "fst (ArchiveFile example_env ''d/y.txt'' (newZipArchiver ''out.zip'')) = Return None
   \<and> entries (snd (ArchiveFile example_env ''d/y.txt'' (newZipArchiver ''out.zip''))) =
       [\<lparr>hdr = \<lparr>fh_Name = ''y.txt'', fh_Method = Deflate, fh_Type = Regular, fh_Perm = 420,
                fh_ModTime = 1500000000, fh_Size = 1\<rparr>,
         data = ''Y''\<rparr>]
   \<and> map stored_name
        (entries (snd (ArchiveFile example_env ''d/y.txt'' (newZipArchiver ''out.zip'')))) =
      [''y.txt'']
   \<and> finalized (snd (ArchiveFile example_env ''d/y.txt'' (newZipArchiver ''out.zip'')))"
proof -
  let ?run = "ArchiveFile example_env ''d/y.txt'' (newZipArchiver ''out.zip'')"
  have s: "os_Stat example_env ''d/y.txt'' = Inr (file_info ''y.txt'')"
    and c: "ioutil_ReadFile example_env ''d/y.txt'' = Inr ''Y''"
    and w: "writer_Close_err example_env = None"
    by (simp_all add: example_env_def)
  have r: "fst ?run = Return None"
    by (simp add: ArchiveFile_def assertValidFile_def IsRegular_def op_defs example_env_def
          file_info_def)
  have run: "?run = (Return None, snd ?run)"
    using r by (simp add: prod_eq_iff)
  from ArchiveFile_entry [OF run] r s c w show ?thesis
    by (auto simp: file_info_def)
qed

text \<open>
  C7. A path that does not resolve to an existing regular file (its stat fails, or succeeds
  with a directory or another object that is not a regular file) makes \<^verbatim>\<open>ArchiveFile\<close>
  return the error of the validation and leave the state as it was: the target has not been
  created or truncated. A root whose stat fails or is not a directory does the same to
  \<^verbatim>\<open>ArchiveDir\<close>.
\<close>

theorem invalid_path_target_untouched:
  "((\<forall>fi. os_Stat env infilename = Inr fi \<longrightarrow> \<not> IsRegular fi) \<longrightarrow>
      (\<exists>err. assertValidFile env infilename = Inl err \<and>
             ArchiveFile env infilename a = (Return (Some err), a)))
   \<and> ((\<forall>fi. os_Stat env indirname = Inr fi \<longrightarrow> \<not> IsDir fi) \<longrightarrow>
      (\<exists>err. assertValidDir env indirname = Inl err \<and>
             ArchiveDir env indirname a = (Return (Some err), a)))"
  by (auto simp: ArchiveFile_def ArchiveDir_def assertValidFile_def assertValidDir_def
        split: sum.splits)

theorem invalid_path_target_untouched_witness:
  "(\<exists>err. ArchiveFile example_env ''d'' (newZipArchiver ''out.zip'') =
            (Return (Some err), newZipArchiver ''out.zip''))
   \<and> (\<exists>err. ArchiveDir example_env ''d/y.txt'' (newZipArchiver ''out.zip'') =
            (Return (Some err), newZipArchiver ''out.zip''))"
proof -
  have f: "\<forall>fi. os_Stat example_env ''d'' = Inr fi \<longrightarrow> \<not> IsRegular fi"
    by (simp add: example_env_def dir_info_def IsRegular_def)
  have d: "\<forall>fi. os_Stat example_env ''d/y.txt'' = Inr fi \<longrightarrow> \<not> IsDir fi"
    by (simp add: example_env_def file_info_def IsDir_def)
  from invalid_path_target_untouched
         [of example_env "''d''" "newZipArchiver ''out.zip''" "''d/y.txt''"] f d
  show ?thesis by blast
qed

text \<open>
  C10. \<^verbatim>\<open>ArchiveFile\<close> reads the file before it opens the target: when the path is valid
  and reading it fails, the error of the read is returned and the state is as it was, so the
  target has not been created or truncated.
\<close>

theorem read_failure_target_untouched:
  assumes "assertValidFile env infilename = Inr fi"
      and "ioutil_ReadFile env infilename = Inl err"
  shows "ArchiveFile env infilename a = (Return (Some err), a)"
  using assms by (simp add: ArchiveFile_def)

theorem read_failure_target_untouched_witness:
  "assertValidFile example_env ''locked.txt'' = Inr (file_info ''locked.txt'')
   \<and> ioutil_ReadFile example_env ''locked.txt'' = Inl (Error ''permission denied'')
   \<and> ArchiveFile example_env ''locked.txt'' (newZipArchiver ''out.zip'') =
       (Return (Some (Error ''permission denied'')), newZipArchiver ''out.zip'')"
proof -
  have v: "assertValidFile example_env ''locked.txt'' = Inr (file_info ''locked.txt'')"
    by (simp add: assertValidFile_def example_env_def file_info_def IsRegular_def)
  have r: "ioutil_ReadFile example_env ''locked.txt'' = Inl (Error ''permission denied'')"
    by (simp add: example_env_def)
  from read_failure_target_untouched [OF v r] v r show ?thesis by simp
qed

subsection \<open>ArchiveMultiple\<close>

lemma write_all_names:
  "write_all env content keys a = (r, a') \<Longrightarrow>
     \<exists>n. map (fh_Name \<circ> hdr) (entries a') = map (fh_Name \<circ> hdr) (entries a) @ take n keys"
proof (induction keys arbitrary: a)
  case Nil
  then show ?case by simp
next
  case (Cons k keys)
  show ?case
  proof (cases "Create env k a")
    case (Pair r1 a1)
    show ?thesis
    proof (cases r1)
      case (Inl err)
      with Pair Cons.prems have "a' = a1" by simp
      with Pair Inl write_one_failed_create [of env k a err a1]
      have "a' = a \<or> a' = a\<lparr>entries := entries a @ [\<lparr>hdr = create_header k, data = []\<rparr>]\<rparr>"
        by simp
      then have "map (fh_Name \<circ> hdr) (entries a') =
            map (fh_Name \<circ> hdr) (entries a) @ take 0 (k # keys)
          \<or> map (fh_Name \<circ> hdr) (entries a') =
            map (fh_Name \<circ> hdr) (entries a) @ take (Suc 0) (k # keys)"
        by (auto simp: create_header_def)
      then show ?thesis by blast
    next
      case (Inr f)
      show ?thesis
      proof (cases "Write env f (index content k) a1")
        case w: (Pair r2 a2)
        show ?thesis
        proof (cases r2)
          case None
          with Pair Inr w Cons.prems have rest: "write_all env content keys a2 = (r, a')"
            by simp
          from write_one [of env k a f a1 "index content k" a2] Pair Inr w None
          have a2: "a2 = a\<lparr>entries := entries a @
                       [\<lparr>hdr = create_header k, data = index content k\<rparr>]\<rparr>"
            by simp
          from Cons.IH [OF rest] obtain n where
            "map (fh_Name \<circ> hdr) (entries a') = map (fh_Name \<circ> hdr) (entries a2) @ take n keys" ..
          with a2 have "map (fh_Name \<circ> hdr) (entries a') =
              map (fh_Name \<circ> hdr) (entries a) @ take (Suc n) (k # keys)"
            by (simp add: create_header_def)
          then show ?thesis by blast
        next
          case (Some err)
          with Pair Inr w Cons.prems have "a' = a2" by simp
          moreover
          from write_one_failed_write [of env k a f a1 "index content k" err a2] Pair Inr w Some
          have "a2 = a\<lparr>entries := entries a @ [\<lparr>hdr = create_header k, data = []\<rparr>]\<rparr>"
            by simp
          ultimately have "map (fh_Name \<circ> hdr) (entries a') =
              map (fh_Name \<circ> hdr) (entries a) @ take (Suc 0) (k # keys)"
            by (simp add: create_header_def)
          then show ?thesis by blast
        qed
      qed
    qed
  qed
qed

lemma write_all_success:
  "write_all env content keys a = (None, a') \<Longrightarrow>
     entries a' =
       entries a @ map (\<lambda>k. \<lparr>hdr = create_header k, data = index content k\<rparr>) keys"
proof (induction keys arbitrary: a)
  case Nil
  then show ?case by simp
next
  case (Cons k keys)
  from Cons.prems obtain f a1 a2 where
    c: "Create env k a = (Inr f, a1)" and w: "Write env f (index content k) a1 = (None, a2)"
    and rest: "write_all env content keys a2 = (None, a')"
    by (auto split: prod.splits sum.splits option.splits)
  from write_one [OF c w] Cons.IH [OF rest] show ?case by simp
qed

lemma write_all_index_cong:
  "(\<And>k. k \<in> set keys \<Longrightarrow> index c1 k = index c2 k) \<Longrightarrow>
     write_all env c1 keys a = write_all env c2 keys a"
  by (induction keys arbitrary: a) (auto split: prod.splits sum.splits option.splits)

lemma strictly_sorted_take_sort:
  "distinct keys \<Longrightarrow> sorted_wrt (<) (take n (sort keys))"
  by (simp add: sorted_wrt_take strict_sorted_iff)

lemma index_cong: "map_of c1 = map_of c2 \<Longrightarrow> index c1 k = index c2 k"
  by (simp add: index_def)

lemma sorted_keys_unique:
  assumes "distinct (range_keys c1)" "distinct (range_keys c2)" "map_of c1 = map_of c2"
  shows "sort_Strings (range_keys c1) = sort_Strings (range_keys c2)"
proof -
  have "set (range_keys c1) = dom (map_of c1)" "set (range_keys c2) = dom (map_of c2)"
    by (simp_all add: range_keys_def dom_map_of_conv_image_fst)
  with assms(3) have "set (sort (range_keys c1)) = set (sort (range_keys c2))" by simp
  moreover have "distinct (sort (range_keys c1))" "distinct (sort (range_keys c2))"
    using assms(1,2) by simp_all
  ultimately show ?thesis
    unfolding sort_Strings_def by (intro sorted_distinct_set_unique) simp_all
qed

text \<open>
  C1. \<^verbatim>\<open>ArchiveMultiple\<close> on a map (its keys are distinct) either leaves the state as it was
  (the target could not be created) or has written entries whose names are strictly ascending
  in the byte-wise lexicographic order: they are an initial part of the sorted keys, and when
  it returns nil they are all the sorted keys, each with the content the map gives it. For
  the map \<^verbatim>\<open>{"b.txt": "2", "a.txt": "1"}\<close> the entry \<^verbatim>\<open>a.txt\<close> with content \<^verbatim>\<open>1\<close> is
  written before \<^verbatim>\<open>b.txt\<close> with content \<^verbatim>\<open>2\<close>.
\<close>

theorem ArchiveMultiple_sorted_order:
  assumes "distinct (range_keys content)"
      and "ArchiveMultiple env content a = (r, a')"
  shows "a' = a \<or>
         (sorted_wrt (<) (map (fh_Name \<circ> hdr) (entries a')) \<and>
          (\<exists>n. map (fh_Name \<circ> hdr) (entries a') = take n (sort_Strings (range_keys content))) \<and>
          (r = Return None \<longrightarrow>
             map (\<lambda>e. (fh_Name (hdr e), data e)) (entries a') =
               map (\<lambda>k. (k, index content k)) (sort_Strings (range_keys content))))"
proof (cases "os_Create_err env (filepath a)")
  case (Some err)
  with assms(2) have "a' = a" by (simp add: ArchiveMultiple_def open_archive_def)
  then show ?thesis by simp
next
  case None
  define a1 where "a1 = a\<lparr>filewriter := True, writer := True, creates := Suc (creates a),
                          entries := [], finalized := False, synced := False\<rparr>"
  obtain r2 a2 where w: "write_all env content (sort_Strings (range_keys content)) a1 = (r2, a2)"
    by (cases "write_all env content (sort_Strings (range_keys content)) a1")
  from None w assms(2) have r: "r = Return r2" and a': "a' = close env a2"
    by (simp_all add: ArchiveMultiple_def open_archive_def a1_def)
  have e: "entries a' = entries a2" by (simp add: a' close_entries)
  from write_all_names [OF w] obtain n where
    n: "map (fh_Name \<circ> hdr) (entries a2) = take n (sort_Strings (range_keys content))"
    by (auto simp: a1_def)
  have "sorted_wrt (<) (map (fh_Name \<circ> hdr) (entries a'))"
    using assms(1) by (simp add: e n sort_Strings_def strictly_sorted_take_sort)
  moreover
  have "\<exists>n. map (fh_Name \<circ> hdr) (entries a') = take n (sort_Strings (range_keys content))"
    using n e by auto
  moreover
  have "r = Return None \<longrightarrow>
          map (\<lambda>e. (fh_Name (hdr e), data e)) (entries a') =
            map (\<lambda>k. (k, index content k)) (sort_Strings (range_keys content))"
  proof
    assume "r = Return None"
    with r w have "write_all env content (sort_Strings (range_keys content)) a1 = (None, a2)"
      by simp
    from write_all_success [OF this]
    show "map (\<lambda>e. (fh_Name (hdr e), data e)) (entries a') =
            map (\<lambda>k. (k, index content k)) (sort_Strings (range_keys content))"
      by (simp add: e a1_def create_header_def comp_def)
  qed
  ultimately show ?thesis by blast
qed

theorem ArchiveMultiple_sorted_order_witness:
  "distinct (range_keys [(''b.txt'', ''2''), (''a.txt'', ''1'')])
   \<and> fst (ArchiveMultiple example_env [(''b.txt'', ''2''), (''a.txt'', ''1'')]
            (newZipArchiver ''out.zip'')) = Return None
   \<and> map (\<lambda>e. (fh_Name (hdr e), data e))
       (entries (snd (ArchiveMultiple example_env [(''b.txt'', ''2''), (''a.txt'', ''1'')]
                        (newZipArchiver ''out.zip'')))) =
     [(''a.txt'', ''1''), (''b.txt'', ''2'')]"
proof -
  let ?c = "[(''b.txt'', ''2''), (''a.txt'', ''1'')]"
  let ?run = "ArchiveMultiple example_env ?c (newZipArchiver ''out.zip'')"
  have d: "distinct (range_keys ?c)" by (simp add: range_keys_def)
  have s: "sort_Strings (range_keys ?c) = [''a.txt'', ''b.txt'']"
    by (simp add: sort_Strings_def range_keys_def)
  have r: "fst ?run = Return None"
    by (simp add: ArchiveMultiple_def op_defs s example_env_def)
  have c: "creates (snd ?run) = 1"
    by (simp add: ArchiveMultiple_def op_defs s example_env_def newZipArchiver_def)
  then have ne: "snd ?run \<noteq> newZipArchiver ''out.zip''"
    by (auto simp: newZipArchiver_def)
  have run: "?run = (Return None, snd ?run)" using r by (simp add: prod_eq_iff)
  from ArchiveMultiple_sorted_order [OF d run] ne
  have "map (\<lambda>e. (fh_Name (hdr e), data e)) (entries (snd ?run)) =
          map (\<lambda>k. (k, index ?c k)) (sort_Strings (range_keys ?c))"
    by blast
  then show ?thesis using d r by (simp add: s index_def)
qed

text \<open>
  C2. Two calls of \<^verbatim>\<open>ArchiveMultiple\<close> with the same map, whatever the order in which
  \<^verbatim>\<open>range\<close> yields its pairs, in the same environment and from the same state, have the
  same outcome and leave the same state, hence the same entries in the same order.
\<close>

theorem ArchiveMultiple_deterministic:
  assumes "distinct (range_keys c1)" and "distinct (range_keys c2)" and "map_of c1 = map_of c2"
  shows "ArchiveMultiple env c1 a = ArchiveMultiple env c2 a"
proof -
  have "write_all env c1 keys b = write_all env c2 keys b" for keys b
    by (rule write_all_index_cong) (rule index_cong [OF assms(3)])
  then have "write_all env c1 (sort_Strings (range_keys c1)) b =
             write_all env c2 (sort_Strings (range_keys c2)) b" for b
    by (simp add: sorted_keys_unique [OF assms])
  then show ?thesis
    by (simp add: ArchiveMultiple_def split: prod.splits option.splits)
qed

theorem ArchiveMultiple_deterministic_witness:
  "distinct (range_keys [(''b.txt'', ''2''), (''a.txt'', ''1'')])
   \<and> distinct (range_keys [(''a.txt'', ''1''), (''b.txt'', ''2'')])
   \<and> map_of [(''b.txt'', ''2''), (''a.txt'', ''1'')] = map_of [(''a.txt'', ''1''), (''b.txt'', ''2'')]
   \<and> ArchiveMultiple example_env [(''b.txt'', ''2''), (''a.txt'', ''1'')] (newZipArchiver ''out.zip'')
       = ArchiveMultiple example_env [(''a.txt'', ''1''), (''b.txt'', ''2'')] (newZipArchiver ''out.zip'')"
proof -
  have d1: "distinct (range_keys [(''b.txt'', ''2''), (''a.txt'', ''1'')])"
    by (simp add: range_keys_def)
  have d2: "distinct (range_keys [(''a.txt'', ''1''), (''b.txt'', ''2'')])"
    by (simp add: range_keys_def)
  have m: "map_of [(''b.txt'', ''2''), (''a.txt'', ''1'')] =
           map_of [(''a.txt'', ''1''), (''b.txt'', ''2'')]"
    by (rule ext) simp
  from ArchiveMultiple_deterministic [OF d1 d2 m] d1 d2 m show ?thesis by blast
qed

subsection \<open>The walk\<close>

lemma run_append:
  "run fn (xs @ ys) a =
     (case run fn xs a of (Return None, a1) \<Rightarrow> run fn ys a1 | (err1, a1) \<Rightarrow> (err1, a1))"
  by (induction xs arbitrary: a) (auto split: prod.splits outcome.splits option.splits)

lemma walk_run:
  "walk fn path node a = run fn (visits path node) a"
  "walk_children fn path names a = run fn (visits_children path names) a"
  by (induction fn path node a and fn path names a rule: walk_walk_children.induct)
     (auto simp: run_append split: prod.splits outcome.splits option.splits)

lemma walkFn_nil_info: "walkFn env root path None err a = (Panic, a)"
  by (simp add: walkFn_def)

lemma walkFn_dir: "IsDir fi \<Longrightarrow> walkFn env root path (Some fi) err a = (Return None, a)"
  by (simp add: walkFn_def)

lemma walkFn_frame:
  "walkFn env root path info err a = (r, a') \<Longrightarrow> a' = a\<lparr>entries := entries a'\<rparr>"
  by (auto simp: walkFn_def CreateHeader_def Let_def Write_def
        split: option.splits sum.splits if_splits prod.splits)

lemma run_frame:
  "run (walkFn env root) vs a = (r, a') \<Longrightarrow> a' = a\<lparr>entries := entries a'\<rparr>"
proof (induction vs arbitrary: a)
  case Nil
  then show ?case by simp
next
  case (Cons v vs)
  obtain path info err where v: "v = (path, info, err)" by (cases v)
  obtain r1 a1 where f: "walkFn env root path info err a = (r1, a1)"
    by (cases "walkFn env root path info err a")
  from walkFn_frame [OF f] have a1: "a1 = a\<lparr>entries := entries a1\<rparr>" .
  show ?case
  proof (cases "r1 = Return None")
    case True
    with Cons.prems v f have "run (walkFn env root) vs a1 = (r, a')" by simp
    from Cons.IH [OF this] have "a' = a1\<lparr>entries := entries a'\<rparr>" .
    with a1 show ?thesis by (metis zipArchiver.surjective zipArchiver.update_convs(5))
  next
    case False
    with Cons.prems v f have "a' = a1"
      by (auto split: outcome.splits option.splits)
    with a1 show ?thesis by simp
  qed
qed

lemma Walk_frame:
  assumes "Walk env root (walkFn env root) a = (r, a')"
  shows "a' = a\<lparr>entries := entries a'\<rparr>"
proof (cases "os_Lstat env root")
  case (Inl err)
  with assms show ?thesis by (simp add: Walk_def walkFn_nil_info)
next
  case (Inr node)
  with assms have "run (walkFn env root) (visits root node) a = (r, a')"
    by (simp add: Walk_def walk_run)
  then show ?thesis by (rule run_frame)
qed

lemma write_all_frame:
  "write_all env content keys a = (r, a') \<Longrightarrow> a' = a\<lparr>entries := entries a'\<rparr>"
proof (induction keys arbitrary: a)
  case Nil
  then show ?case by simp
next
  case (Cons k keys)
  show ?case
  proof (cases "Create env k a")
    case (Pair r1 a1)
    show ?thesis
    proof (cases r1)
      case (Inl err)
      with Pair Cons.prems have "a' = a1" by simp
      with Pair Inl write_one_failed_create [of env k a err a1] show ?thesis by auto
    next
      case (Inr f)
      show ?thesis
      proof (cases "Write env f (index content k) a1")
        case w: (Pair r2 a2)
        show ?thesis
        proof (cases r2)
          case None
          with Pair Inr w Cons.prems have "write_all env content keys a2 = (r, a')" by simp
          from Cons.IH [OF this] have "a' = a2\<lparr>entries := entries a'\<rparr>" .
          moreover from write_one [of env k a f a1 "index content k" a2] Pair Inr w None
          have "a2 = a\<lparr>entries := entries a @
                       [\<lparr>hdr = create_header k, data = index content k\<rparr>]\<rparr>"
            by simp
          ultimately show ?thesis
            by (metis zipArchiver.surjective zipArchiver.update_convs(5))
        next
          case (Some err)
          with Pair Inr w Cons.prems have "a' = a2" by simp
          with write_one_failed_write [of env k a f a1 "index content k" err a2] Pair Inr w Some
          show ?thesis by simp
        qed
      qed
    qed
  qed
qed

subsection \<open>Closing\<close>

lemma close_after_open:
  assumes "a2 = (a\<lparr>filewriter := True, writer := True, creates := Suc (creates a),
                   entries := [], finalized := False, synced := False\<rparr>)\<lparr>entries := es\<rparr>"
  shows "closed_as_often_as_created a (close env a2)"
  by (simp add: assms closed_as_often_as_created_def close_def Let_def)

lemma closed_refl: "closed_as_often_as_created a a"
  by (simp add: closed_as_often_as_created_def)

lemma ArchiveContent_closes:
  "closed_as_often_as_created a (snd (ArchiveContent env content infilename a))"
  by (auto simp: ArchiveContent_def closed_as_often_as_created_def op_defs
        split: option.splits)

lemma ArchiveFile_closes:
  "closed_as_often_as_created a (snd (ArchiveFile env infilename a))"
  by (auto simp: ArchiveFile_def closed_as_often_as_created_def op_defs
        split: option.splits sum.splits)

lemma ArchiveDir_closes:
  "closed_as_often_as_created a (snd (ArchiveDir env indirname a))"
proof (cases "assertValidDir env indirname")
  case (Inl err)
  then show ?thesis by (simp add: ArchiveDir_def closed_refl)
next
  case (Inr fi)
  show ?thesis
  proof (cases "os_Create_err env (filepath a)")
    case (Some err)
    with Inr show ?thesis by (simp add: ArchiveDir_def open_archive_def closed_refl)
  next
    case None
    define a1 where "a1 = a\<lparr>filewriter := True, writer := True, creates := Suc (creates a),
                            entries := [], finalized := False, synced := False\<rparr>"
    obtain r a2 where w: "Walk env indirname (walkFn env indirname) a1 = (r, a2)"
      by (cases "Walk env indirname (walkFn env indirname) a1")
    from Walk_frame [OF w] have "a2 = a1\<lparr>entries := entries a2\<rparr>" .
    then have "closed_as_often_as_created a (close env a2)"
      unfolding a1_def by (rule close_after_open)
    with Inr None w show ?thesis
      by (simp add: ArchiveDir_def open_archive_def a1_def)
  qed
qed

lemma ArchiveMultiple_closes:
  "closed_as_often_as_created a (snd (ArchiveMultiple env content a))"
proof (cases "os_Create_err env (filepath a)")
  case (Some err)
  then show ?thesis by (simp add: ArchiveMultiple_def open_archive_def closed_refl)
next
  case None
  define a1 where "a1 = a\<lparr>filewriter := True, writer := True, creates := Suc (creates a),
                          entries := [], finalized := False, synced := False\<rparr>"
  obtain r a2 where w: "write_all env content (sort_Strings (range_keys content)) a1 = (r, a2)"
    by (cases "write_all env content (sort_Strings (range_keys content)) a1")
  from write_all_frame [OF w] have "a2 = a1\<lparr>entries := entries a2\<rparr>" .
  then have "closed_as_often_as_created a (close env a2)"
    unfolding a1_def by (rule close_after_open)
  with None w show ?thesis
    by (simp add: ArchiveMultiple_def open_archive_def a1_def)
qed

lemma open_archive_close_errors [simp]:
  "open_archive (with_close_errors env werr ferr) = open_archive env"
  by (intro ext) (simp add: open_archive_def with_close_errors_def)

lemma CreateHeader_close_errors [simp]:
  "CreateHeader (with_close_errors env werr ferr) = CreateHeader env"
  by (intro ext)
     (simp add: CreateHeader_def Let_def with_close_errors_def
        cong: option.case_cong if_cong)

lemma Create_close_errors [simp]:
  "Create (with_close_errors env werr ferr) = Create env"
  by (intro ext) (simp add: Create_def)

lemma Write_close_errors [simp]:
  "Write (with_close_errors env werr ferr) = Write env"
  by (intro ext) (simp add: Write_def with_close_errors_def)

lemma FileInfoHeader_close_errors [simp]:
  "FileInfoHeader (with_close_errors env werr ferr) = FileInfoHeader env"
  by (intro ext) (simp add: FileInfoHeader_def with_close_errors_def)

lemma Rel_close_errors [simp]:
  "Rel (with_close_errors env werr ferr) = Rel env"
  by (intro ext) (simp add: Rel_def with_close_errors_def)

lemma ReadFile_close_errors [simp]:
  "ioutil_ReadFile (with_close_errors env werr ferr) = ioutil_ReadFile env"
  by (simp add: with_close_errors_def)

lemma assertValidFile_close_errors [simp]:
  "assertValidFile (with_close_errors env werr ferr) = assertValidFile env"
  by (intro ext) (simp add: assertValidFile_def with_close_errors_def)

lemma assertValidDir_close_errors [simp]:
  "assertValidDir (with_close_errors env werr ferr) = assertValidDir env"
  by (intro ext) (simp add: assertValidDir_def with_close_errors_def)

lemma walkFn_close_errors [simp]:
  "walkFn (with_close_errors env werr ferr) = walkFn env"
  by (intro ext)
     (simp add: walkFn_def cong: option.case_cong sum.case_cong prod.case_cong if_cong)

lemma Walk_close_errors [simp]:
  "Walk (with_close_errors env werr ferr) = Walk env"
  by (intro ext) (simp add: Walk_def with_close_errors_def)

lemma write_all_close_errors [simp]:
  "write_all (with_close_errors env werr ferr) content keys a = write_all env content keys a"
  by (induction keys arbitrary: a) (simp_all split: prod.splits sum.splits option.splits)

lemma ArchiveContent_close_errors:
  "fst (ArchiveContent (with_close_errors env werr ferr) content infilename a) =
   fst (ArchiveContent env content infilename a)"
  by (simp add: ArchiveContent_def split: prod.splits sum.splits option.splits)

lemma ArchiveFile_close_errors:
  "fst (ArchiveFile (with_close_errors env werr ferr) infilename a) =
   fst (ArchiveFile env infilename a)"
  by (simp add: ArchiveFile_def split: prod.splits sum.splits option.splits)

lemma ArchiveDir_close_errors:
  "fst (ArchiveDir (with_close_errors env werr ferr) indirname a) =
   fst (ArchiveDir env indirname a)"
  by (simp add: ArchiveDir_def split: prod.splits sum.splits option.splits)

lemma ArchiveMultiple_close_errors:
  "fst (ArchiveMultiple (with_close_errors env werr ferr) content a) =
   fst (ArchiveMultiple env content a)"
  by (simp add: ArchiveMultiple_def split: prod.splits sum.splits option.splits)

text \<open>
  C8. In each of the four operations the writer and the file are closed as often as the
  target has been created in the call, on every way out of it, the panic of the walk
  included; and the outcome of the call does not depend on what the two \<^verbatim>\<open>Close\<close>
  calls report: an error of finalizing or closing is never returned.
\<close>

theorem close_runs_and_its_errors_are_dropped:
  "closed_as_often_as_created a (snd (ArchiveContent env content entryname a))
   \<and> closed_as_often_as_created a (snd (ArchiveFile env infilename a))
   \<and> closed_as_often_as_created a (snd (ArchiveDir env indirname a))
   \<and> closed_as_often_as_created a (snd (ArchiveMultiple env files a))
   \<and> fst (ArchiveContent (with_close_errors env werr ferr) content entryname a) =
       fst (ArchiveContent env content entryname a)
   \<and> fst (ArchiveFile (with_close_errors env werr ferr) infilename a) =
       fst (ArchiveFile env infilename a)
   \<and> fst (ArchiveDir (with_close_errors env werr ferr) indirname a) =
       fst (ArchiveDir env indirname a)
   \<and> fst (ArchiveMultiple (with_close_errors env werr ferr) files a) =
       fst (ArchiveMultiple env files a)"
  by (intro conjI ArchiveContent_closes ArchiveFile_closes ArchiveDir_closes
        ArchiveMultiple_closes ArchiveContent_close_errors ArchiveFile_close_errors
        ArchiveDir_close_errors ArchiveMultiple_close_errors)

theorem close_runs_and_its_errors_are_dropped_witness:
  "fst (ArchiveContent (with_close_errors example_env (Some (Error ''no space left on device''))
          (Some (Error ''input/output error''))) ''1'' ''a.txt'' (newZipArchiver ''out.zip'')) =
     Return None
   \<and> \<not> finalized (snd (ArchiveContent
          (with_close_errors example_env (Some (Error ''no space left on device''))
             (Some (Error ''input/output error''))) ''1'' ''a.txt'' (newZipArchiver ''out.zip'')))
   \<and> closed_as_often_as_created (newZipArchiver ''out.zip'')
        (snd (ArchiveDir unsearchable_env ''d'' (newZipArchiver ''out.zip'')))
   \<and> creates (snd (ArchiveDir unsearchable_env ''d'' (newZipArchiver ''out.zip''))) = 1
   \<and> fst (ArchiveDir unsearchable_env ''d'' (newZipArchiver ''out.zip'')) = Panic"
proof -
  let ?env = "with_close_errors example_env (Some (Error ''no space left on device''))
                (Some (Error ''input/output error''))"
  have r: "fst (ArchiveContent example_env ''1'' ''a.txt'' (newZipArchiver ''out.zip'')) =
      Return None"
    by (simp add: ArchiveContent_def op_defs example_env_def)
  have f: "\<not> finalized (snd (ArchiveContent ?env ''1'' ''a.txt'' (newZipArchiver ''out.zip'')))"
    by (simp add: ArchiveContent_def op_defs example_env_def with_close_errors_def)
  have c: "creates (snd (ArchiveDir unsearchable_env ''d'' (newZipArchiver ''out.zip''))) = 1"
    by (simp add: ArchiveDir_def assertValidDir_def Walk_def walkFn_def Rel_def Join_def
          IsDir_def IsRegular_def op_defs example_env_def example_tree_def
          unsearchable_env_def unsearchable_tree_def file_info_def dir_info_def
          newZipArchiver_def)
  have p: "fst (ArchiveDir unsearchable_env ''d'' (newZipArchiver ''out.zip'')) = Panic"
    by (simp add: ArchiveDir_def assertValidDir_def Walk_def walkFn_def Rel_def Join_def
          IsDir_def IsRegular_def op_defs example_env_def example_tree_def
          unsearchable_env_def unsearchable_tree_def file_info_def dir_info_def
          newZipArchiver_def)
  from close_runs_and_its_errors_are_dropped
         [where env = example_env and a = "newZipArchiver ''out.zip''" and content = "''1''"
            and entryname = "''a.txt''" and werr = "Some (Error ''no space left on device'')"
            and ferr = "Some (Error ''input/output error'')"]
       close_runs_and_its_errors_are_dropped
         [where env = unsearchable_env and a = "newZipArchiver ''out.zip''"
            and indirname = "''d''"]
       r f c p
  show ?thesis by simp
qed

subsection \<open>What the walk writes\<close>

lemma walkFn_file_cases:
  assumes "\<not> IsDir fi" and "walkFn env root path (Some fi) err a = (r, a')"
  shows "(r \<noteq> Return None \<and> entries a' = entries a) \<or>
         (\<exists>e. entries a' = entries a @ [e] \<and> Rel env root path = Inr (fh_Name (hdr e)) \<and>
              (r = Return None \<longrightarrow> archives env root e (path, fi)))"
  using assms
  by (auto simp: walkFn_def CreateHeader_def Let_def Write_def FileInfoHeader_def
        archives_def stored_name_fit split: option.splits sum.splits if_splits)

lemma run_written:
  "run (walkFn env root) vs a = (r, a') \<Longrightarrow>
     \<exists>n new. entries a' = entries a @ new \<and>
       list_all2 (\<lambda>e pf. Rel env root (fst pf) = Inr (fh_Name (hdr e))) new (take n (nondirs vs))"
proof (induction vs arbitrary: a)
  case Nil
  then have "entries a' = entries a @ [] \<and>
      list_all2 (\<lambda>e pf. Rel env root (fst pf) = Inr (fh_Name (hdr e))) [] (take 0 (nondirs []))"
    by simp
  then show ?case by blast
next
  case (Cons v vs)
  let ?R = "\<lambda>e pf. Rel env root (fst pf) = Inr (fh_Name (hdr e))"
  obtain path info err where v: "v = (path, info, err)" by (cases v)
  have stop: "\<exists>n new. entries a' = entries a @ new \<and> list_all2 ?R new (take n (nondirs (v # vs)))"
    if "entries a' = entries a"
  proof -
    from that have "entries a' = entries a @ [] \<and> list_all2 ?R [] (take 0 (nondirs (v # vs)))"
      by simp
    then show ?thesis by blast
  qed
  show ?case
  proof (cases info)
    case None
    with Cons.prems v have "a' = a" by (simp add: walkFn_nil_info)
    then show ?thesis by (intro stop) simp
  next
    case (Some fi)
    show ?thesis
    proof (cases "IsDir fi")
      case True
      with Cons.prems v Some have "run (walkFn env root) vs a = (r, a')"
        by (simp add: walkFn_dir)
      from Cons.IH [OF this] show ?thesis using v Some True by simp
    next
      case False
      obtain r1 a1 where f: "walkFn env root path (Some fi) err a = (r1, a1)"
        by (cases "walkFn env root path (Some fi) err a")
      from walkFn_file_cases [OF False f] show ?thesis
      proof (elim disjE conjE exE)
        assume "r1 \<noteq> Return None" and "entries a1 = entries a"
        with Cons.prems v Some f have "entries a' = entries a"
          by (auto split: outcome.splits option.splits)
        then show ?thesis by (rule stop)
      next
        fix e
        assume e: "entries a1 = entries a @ [e]" and n: "Rel env root path = Inr (fh_Name (hdr e))"
        show ?thesis
        proof (cases "r1 = Return None")
          case True
          with Cons.prems v Some f have "run (walkFn env root) vs a1 = (r, a')" by simp
          from Cons.IH [OF this] obtain n new where
            new: "entries a' = entries a1 @ new" "list_all2 ?R new (take n (nondirs vs))"
            by blast
          with e n v Some False
          have "entries a' = entries a @ (e # new) \<and>
                list_all2 ?R (e # new) (take (Suc n) (nondirs (v # vs)))"
            by simp
          then show ?thesis by blast
        next
          case stopped: False
          with Cons.prems v Some f have "a' = a1"
            by (auto split: outcome.splits option.splits)
          with e n v Some False
          have "entries a' = entries a @ [e] \<and>
                list_all2 ?R [e] (take (Suc 0) (nondirs (v # vs)))"
            by simp
          then show ?thesis by blast
        qed
      qed
    qed
  qed
qed

lemma run_success:
  "run (walkFn env root) vs a = (Return None, a') \<Longrightarrow>
     \<exists>new. entries a' = entries a @ new \<and> list_all2 (archives env root) new (nondirs vs)"
proof (induction vs arbitrary: a)
  case Nil
  then show ?case by simp
next
  case (Cons v vs)
  obtain path info err where v: "v = (path, info, err)" by (cases v)
  show ?case
  proof (cases info)
    case None
    with Cons.prems v show ?thesis by (simp add: walkFn_nil_info)
  next
    case (Some fi)
    show ?thesis
    proof (cases "IsDir fi")
      case True
      with Cons.prems v Some have "run (walkFn env root) vs a = (Return None, a')"
        by (simp add: walkFn_dir)
      from Cons.IH [OF this] show ?thesis using v Some True by simp
    next
      case False
      obtain r1 a1 where f: "walkFn env root path (Some fi) err a = (r1, a1)"
        by (cases "walkFn env root path (Some fi) err a")
      with Cons.prems v Some have r1: "r1 = Return None"
        and rest: "run (walkFn env root) vs a1 = (Return None, a')"
        by (auto split: outcome.splits option.splits)
      from walkFn_file_cases [OF False f] r1 obtain e where
        e: "entries a1 = entries a @ [e]" "archives env root e (path, fi)"
        by blast
      from Cons.IH [OF rest] obtain new where
        "entries a' = entries a1 @ new" "list_all2 (archives env root) new (nondirs vs)"
        by blast
      with e v Some False
      have "entries a' = entries a @ (e # new) \<and>
            list_all2 (archives env root) (e # new) (nondirs (v # vs))"
        by simp
      then show ?thesis by blast
    qed
  qed
qed

lemma nondirs_append: "nondirs (xs @ ys) = nondirs xs @ nondirs ys"
  by (induction xs rule: nondirs.induct) simp_all

lemma nondirs_readable:
  "readable node \<Longrightarrow> nondirs (visits path node) = files_under path node"
  "readable_children names \<Longrightarrow>
     nondirs (visits_children path names) = files_under_children path names"
  by (induction path node and path names rule: visits_visits_children.induct)
     (auto simp: nondirs_append split: option.splits)

subsection \<open>ArchiveDir\<close>

lemmas example_defs = example_env_def example_tree_def unlisted_env_def unlisted_tree_def
  unsearchable_env_def unsearchable_tree_def link_env_def link_tree_def
  file_info_def dir_info_def link_info_def newZipArchiver_def

lemmas dir_defs = ArchiveDir_def assertValidDir_def Walk_def walkFn_def Rel_def Join_def
  IsDir_def IsRegular_def op_defs

lemma ArchiveDir_success:
  assumes "os_Lstat env indirname = Inr node"
      and "ArchiveDir env indirname a = (Return None, a')"
  shows "list_all2 (archives env indirname) (entries a') (nondirs (visits indirname node))
         \<and> finalized a' = (writer_Close_err env = None)"
proof -
  define a1 where "a1 = a\<lparr>filewriter := True, writer := True, creates := Suc (creates a),
                          entries := [], finalized := False, synced := False\<rparr>"
  from assms(2) obtain fi where v: "assertValidDir env indirname = Inr fi"
    by (auto simp: ArchiveDir_def split: sum.splits)
  from assms(2) v have c: "os_Create_err env (filepath a) = None"
    by (auto simp: ArchiveDir_def open_archive_def split: option.splits)
  obtain r a2 where w: "run (walkFn env indirname) (visits indirname node) a1 = (r, a2)"
    by (cases "run (walkFn env indirname) (visits indirname node) a1")
  from assms v c w have r: "r = Return None" and a': "a' = close env a2"
    by (simp_all add: ArchiveDir_def open_archive_def Walk_def walk_run a1_def)
  from run_frame [OF w] have "writer a2 = writer (a1\<lparr>entries := entries a2\<rparr>)"
    by (rule arg_cong)
  then have "writer a2" by (simp add: a1_def)
  then have "finalized a' = (writer_Close_err env = None)"
    unfolding a' by (rule close_finalized)
  moreover from run_success [OF w [unfolded r]]
  have "list_all2 (archives env indirname) (entries a') (nondirs (visits indirname node))"
    by (simp add: a' close_entries a1_def)
  ultimately show ?thesis by simp
qed

text \<open>
  C6, as amended. When every directory under the root can be listed and every object in
  them can be stat'ed, and \<^verbatim>\<open>ArchiveDir\<close> returns nil, the container holds exactly one
  entry for each object under the root that is not a directory (a regular file or not), in
  the order of the walk, and none for a directory: the entry is named by the path relative to
  the root, as passed to the writer and as stored, holds the bytes read from the path, and
  has the method \<^verbatim>\<open>Deflate\<close> and the mode and modification time of the object. The
  container is finalized exactly when closing the writer reports no error, which the
  operation does not return.
\<close>

theorem ArchiveDir_entries:
  assumes "os_Lstat env indirname = Inr node"
      and "readable node"
      and "ArchiveDir env indirname a = (Return None, a')"
  shows "list_all2 (archives env indirname) (entries a') (files_under indirname node)
         \<and> finalized a' = (writer_Close_err env = None)"
  using ArchiveDir_success [OF assms(1,3)] nondirs_readable(1) [OF assms(2)] by simp

theorem ArchiveDir_entries_witness:
  "os_Lstat example_env ''d'' = Inr example_tree
   \<and> readable example_tree
   \<and> fst (ArchiveDir example_env ''d'' (newZipArchiver ''out.zip'')) = Return None
   \<and> map fst (files_under ''d'' example_tree) = [''d/sub/x.txt'', ''d/y.txt'']
   \<and> list_all2 (archives example_env ''d'')
        (entries (snd (ArchiveDir example_env ''d'' (newZipArchiver ''out.zip''))))
        (files_under ''d'' example_tree)
   \<and> map stored_name
        (entries (snd (ArchiveDir example_env ''d'' (newZipArchiver ''out.zip'')))) =
      [''sub/x.txt'', ''y.txt'']
   \<and> finalized (snd (ArchiveDir example_env ''d'' (newZipArchiver ''out.zip'')))"
proof -
  let ?run = "ArchiveDir example_env ''d'' (newZipArchiver ''out.zip'')"
  have l: "os_Lstat example_env ''d'' = Inr example_tree"
    and c: "writer_Close_err example_env = None"
    by (simp_all add: example_env_def)
  have t: "readable example_tree"
    by (simp add: example_defs IsDir_def)
  have r: "fst ?run = Return None"
    by (simp add: dir_defs example_defs)
  have f: "map fst (files_under ''d'' example_tree) = [''d/sub/x.txt'', ''d/y.txt'']"
    by (simp add: example_defs IsDir_def Join_def)
  have n: "map stored_name (entries (snd ?run)) = [''sub/x.txt'', ''y.txt'']"
    by (simp add: dir_defs example_defs stored_name_def)
  have run: "?run = (Return None, snd ?run)"
    using r by (simp add: prod_eq_iff)
  from ArchiveDir_entries [OF l t run] c
  have a: "list_all2 (archives example_env ''d'') (entries (snd ?run))
             (files_under ''d'' example_tree)"
    and z: "finalized (snd ?run)"
    by simp_all
  from l t r f a n z show ?thesis by blast
qed

text \<open>
  C6, as the claim states it, fails in two ways. In a directory that holds one symbolic link
  to a file and no regular file, \<^verbatim>\<open>ArchiveDir\<close> returns nil and the container holds an
  entry, for the link: an object that is not a directory gets an entry whether it is a
  regular file or not. And with \<^verbatim>\<open>d/sub\<close> unlistable the regular file
  \<^verbatim>\<open>d/sub/x.txt\<close> is under the root, and \<^verbatim>\<open>ArchiveDir\<close> returns nil without an
  entry for it: the error of the listing is dropped (see C3).
\<close>

theorem ArchiveDir_regular_files_counterexample:
  "fst (ArchiveDir link_env ''d'' (newZipArchiver ''out.zip'')) = Return None
   \<and> filter (IsRegular \<circ> snd) (files_under ''d'' link_tree) = []
   \<and> map (fh_Name \<circ> hdr)
        (entries (snd (ArchiveDir link_env ''d'' (newZipArchiver ''out.zip'')))) = [''l'']
   \<and> \<not> list_all2 (archives link_env ''d'')
          (entries (snd (ArchiveDir link_env ''d'' (newZipArchiver ''out.zip''))))
          (filter (IsRegular \<circ> snd) (files_under ''d'' link_tree))
   \<and> fst (ArchiveDir unlisted_env ''d'' (newZipArchiver ''out.zip'')) = Return None
   \<and> map fst (filter (IsRegular \<circ> snd) (files_under ''d'' unlisted_tree)) =
        [''d/sub/x.txt'', ''d/y.txt'']
   \<and> map (fh_Name \<circ> hdr)
        (entries (snd (ArchiveDir unlisted_env ''d'' (newZipArchiver ''out.zip'')))) = [''y.txt'']
   \<and> \<not> list_all2 (archives unlisted_env ''d'')
          (entries (snd (ArchiveDir unlisted_env ''d'' (newZipArchiver ''out.zip''))))
          (filter (IsRegular \<circ> snd) (files_under ''d'' unlisted_tree))"
proof -
  let ?link = "ArchiveDir link_env ''d'' (newZipArchiver ''out.zip'')"
  let ?unlisted = "ArchiveDir unlisted_env ''d'' (newZipArchiver ''out.zip'')"
  have r: "fst ?link = Return None"
    by (simp add: dir_defs example_defs)
  have f: "filter (IsRegular \<circ> snd) (files_under ''d'' link_tree) = []"
    by (simp add: example_defs IsDir_def IsRegular_def Join_def)
  have n: "map (fh_Name \<circ> hdr) (entries (snd ?link)) = [''l'']"
    by (simp add: dir_defs example_defs)
  from n have "entries (snd ?link) \<noteq> []" by auto
  with f have c: "\<not> list_all2 (archives link_env ''d'') (entries (snd ?link))
                  (filter (IsRegular \<circ> snd) (files_under ''d'' link_tree))"
    by simp
  have r': "fst ?unlisted = Return None"
    by (simp add: dir_defs example_defs)
  have f': "map fst (filter (IsRegular \<circ> snd) (files_under ''d'' unlisted_tree)) =
      [''d/sub/x.txt'', ''d/y.txt'']"
    by (simp add: example_defs IsDir_def IsRegular_def Join_def)
  have n': "map (fh_Name \<circ> hdr) (entries (snd ?unlisted)) = [''y.txt'']"
    by (simp add: dir_defs example_defs)
  have "length (entries (snd ?unlisted)) = 1"
    using n' [THEN arg_cong, of length] by simp
  moreover have "length (filter (IsRegular \<circ> snd) (files_under ''d'' unlisted_tree)) = 2"
    using f' [THEN arg_cong, of length] by simp
  ultimately have c': "\<not> list_all2 (archives unlisted_env ''d'') (entries (snd ?unlisted))
                  (filter (IsRegular \<circ> snd) (files_under ''d'' unlisted_tree))"
    by (auto dest: list_all2_lengthD)
  from r f n c r' f' n' c' show ?thesis by blast
qed

text \<open>
  C3 fails on the code. The function passed to the walk tests \<^verbatim>\<open>info.IsDir()\<close> before it
  tests \<^verbatim>\<open>err\<close>. The walk reports the error of listing a directory together with the
  directory's \<^verbatim>\<open>info\<close>, so that error is dropped: with \<^verbatim>\<open>d/sub\<close> unlistable the
  walk visits \<^verbatim>\<open>d/sub\<close> with the error, and \<^verbatim>\<open>ArchiveDir\<close> returns nil with the one
  entry \<^verbatim>\<open>y.txt\<close>. The walk reports the error of an \<^verbatim>\<open>Lstat\<close> with a nil \<^verbatim>\<open>info\<close>:
  with \<^verbatim>\<open>d/sub/x.txt\<close> not stat'able the call panics and returns no error.
\<close>

theorem ArchiveDir_drops_walk_error:
  "(''d/sub'', Some (dir_info ''sub''), Some (Error ''open d/sub: permission denied''))
     \<in> set (visits ''d'' unlisted_tree)
   \<and> walkFn unlisted_env ''d'' ''d/sub'' (Some (dir_info ''sub''))
        (Some (Error ''open d/sub: permission denied'')) (newZipArchiver ''out.zip'') =
      (Return None, newZipArchiver ''out.zip'')
   \<and> fst (ArchiveDir unlisted_env ''d'' (newZipArchiver ''out.zip'')) = Return None
   \<and> map (fh_Name \<circ> hdr)
        (entries (snd (ArchiveDir unlisted_env ''d'' (newZipArchiver ''out.zip'')))) = [''y.txt'']
   \<and> (''d/sub/x.txt'', None, Some (Error ''lstat d/sub/x.txt: permission denied''))
     \<in> set (visits ''d'' unsearchable_tree)
   \<and> fst (ArchiveDir unsearchable_env ''d'' (newZipArchiver ''out.zip'')) = Panic"
proof -
  have "(''d/sub'', Some (dir_info ''sub''), Some (Error ''open d/sub: permission denied''))
          \<in> set (visits ''d'' unlisted_tree)"
    by (simp add: example_defs IsDir_def Join_def)
  moreover
  have "walkFn unlisted_env ''d'' ''d/sub'' (Some (dir_info ''sub''))
          (Some (Error ''open d/sub: permission denied'')) (newZipArchiver ''out.zip'') =
        (Return None, newZipArchiver ''out.zip'')"
    by (simp add: walkFn_def IsDir_def dir_info_def)
  moreover
  have "fst (ArchiveDir unlisted_env ''d'' (newZipArchiver ''out.zip'')) = Return None"
    by (simp add: dir_defs example_defs)
  moreover
  have "map (fh_Name \<circ> hdr)
          (entries (snd (ArchiveDir unlisted_env ''d'' (newZipArchiver ''out.zip'')))) = [''y.txt'']"
    by (simp add: dir_defs example_defs)
  moreover
  have "(''d/sub/x.txt'', None, Some (Error ''lstat d/sub/x.txt: permission denied''))
          \<in> set (visits ''d'' unsearchable_tree)"
    by (simp add: example_defs IsDir_def Join_def)
  moreover
  have "fst (ArchiveDir unsearchable_env ''d'' (newZipArchiver ''out.zip'')) = Panic"
    by (simp add: dir_defs example_defs)
  ultimately show ?thesis by blast
qed

text \<open>What holds of the errors of a walk: when the function passed to the walk returns nil
  for an object that is not a directory, no error was reported and every step succeeded;
  and the first visit that does not return nil ends the walk with its result.\<close>

lemma walkFn_file_nil_return:
  assumes "\<not> IsDir fi" and "walkFn env root path (Some fi) err a = (Return None, a')"
  shows "err = None \<and> Rel_err env root path = None \<and> FileInfoHeader_err env fi = None
         \<and> (\<exists>content. ioutil_ReadFile env path = Inr content)"
  using assms
  by (auto simp: walkFn_def Rel_def FileInfoHeader_def
        split: option.splits sum.splits prod.splits)

lemma walkFn_file_walk_error:
  "\<not> IsDir fi \<Longrightarrow> walkFn env root path (Some fi) (Some e) a = (Return (Some e), a)"
  by (simp add: walkFn_def)

lemma run_first_failure:
  assumes "run fn xs a = (Return None, a1)"
      and "fn path info err a1 = (r, a2)" and "r \<noteq> Return None"
  shows "run fn (xs @ (path, info, err) # ys) a = (r, a2)"
  using assms by (auto simp: run_append split: outcome.splits option.splits)

subsection \<open>Distinct names\<close>

lemma below_Join_neq: "below (Join q n) p \<Longrightarrow> p \<noteq> q"
  by (auto simp: below_def Join_def dest: arg_cong [where f = length])

lemma below_Join_prefix: "below (Join q n) p \<Longrightarrow> take (Suc (length q)) p = q @ ''/''"
  by (auto simp: below_def Join_def dest: arg_cong [where f = "take (Suc (length q))"])

lemma below_Join_cases:
  assumes "below (Join q n) p"
  shows "\<exists>x. p = q @ ''/'' @ n @ x \<and> (x = [] \<or> hd x = CHR ''/'')"
proof (cases "p = Join q n")
  case True
  then have "p = q @ ''/'' @ n @ [] \<and> ([] = [] \<or> hd [] = CHR ''/'')"
    by (simp add: Join_def)
  then show ?thesis by blast
next
  case False
  with assms have t: "take (Suc (length (Join q n))) p = Join q n @ ''/''"
    by (simp add: below_def)
  have "p = take (Suc (length (Join q n))) p @ drop (Suc (length (Join q n))) p"
    by simp
  with t have "p = q @ ''/'' @ n @ (''/'' @ drop (Suc (length (Join q n))) p)"
    by (simp add: Join_def)
  then show ?thesis by (metis append_Cons list.sel(1))
qed

lemma name_before_separator:
  assumes "CHR ''/'' \<notin> set n" and "x = [] \<or> hd x = CHR ''/''"
  shows "takeWhile (\<lambda>c. c \<noteq> CHR ''/'') (n @ x) = n"
proof -
  have x: "takeWhile (\<lambda>c. c \<noteq> CHR ''/'') x = []"
    using assms(2) by (cases x) auto
  have "c \<noteq> CHR ''/''" if "c \<in> set n" for c
    using that assms(1) by auto
  then have "takeWhile (\<lambda>c. c \<noteq> CHR ''/'') (n @ x) =
      n @ takeWhile (\<lambda>c. c \<noteq> CHR ''/'') x"
    by (rule takeWhile_append2)
  with x show ?thesis by simp
qed

lemma below_Join_same_name:
  assumes "CHR ''/'' \<notin> set n" and "CHR ''/'' \<notin> set n'"
      and "below (Join q n) p" and "below (Join q n') p"
  shows "n = n'"
proof -
  from below_Join_cases [OF assms(3)] obtain x where
    x: "p = q @ ''/'' @ n @ x" "x = [] \<or> hd x = CHR ''/''" by blast
  from below_Join_cases [OF assms(4)] obtain y where
    y: "p = q @ ''/'' @ n' @ y" "y = [] \<or> hd y = CHR ''/''" by blast
  from x(1) y(1) have "n @ x = n' @ y" by simp
  then have "takeWhile (\<lambda>c. c \<noteq> CHR ''/'') (n @ x) = takeWhile (\<lambda>c. c \<noteq> CHR ''/'') (n' @ y)"
    by simp
  with name_before_separator [OF assms(1) x(2)] name_before_separator [OF assms(2) y(2)]
  show ?thesis by simp
qed

lemma below_trans_Join: "below (Join q n) p \<Longrightarrow> below q p"
  by (auto simp: below_def Join_def dest: arg_cong [where f = "take (Suc (length q))"])

lemma visits_below:
  "v \<in> set (visits path node) \<Longrightarrow> below path (fst v)"
  "v \<in> set (visits_children path names) \<Longrightarrow> \<exists>n \<in> fst ` set names. below (Join path n) (fst v)"
proof (induction path node and path names arbitrary: v and v rule: visits_visits_children.induct)
  case (1 path info listing_err names)
  show ?case
  proof (cases "v = (path, Some info, listing_err) \<or> fst v = path")
    case True
    then show ?thesis by (auto simp: below_def)
  next
    case False
    with "1.prems" have d: "IsDir info" and l: "listing_err = None"
      and v: "v \<in> set (visits_children path names)"
      by (auto split: if_splits option.splits)
    from "1.IH" [OF _ l v] d obtain n where "below (Join path n) (fst v)" by auto
    then show ?thesis by (rule below_trans_Join)
  qed
next
  case (2 path)
  then show ?case by simp
next
  case (3 path name err names)
  from "3.prems" show ?case
  proof (cases "v = (Join path name, None, Some err)")
    case True
    then show ?thesis by (simp add: below_def)
  next
    case False
    with "3.prems" have "v \<in> set (visits_children path names)" by simp
    from "3.IH" [OF this] show ?thesis by auto
  qed
next
  case (4 path name node names)
  from "4.prems" have "v \<in> set (visits (Join path name) node) \<or>
      v \<in> set (visits_children path names)" by simp
  then show ?case
  proof
    assume "v \<in> set (visits (Join path name) node)"
    from "4.IH"(1) [OF this] show ?thesis by simp
  next
    assume "v \<in> set (visits_children path names)"
    from "4.IH"(2) [OF this] show ?thesis by auto
  qed
qed

lemma proper_children_names:
  "proper_children names \<Longrightarrow> n \<in> fst ` set names \<Longrightarrow> CHR ''/'' \<notin> set n"
proof (induction names)
  case Nil
  then show ?case by simp
next
  case (Cons c names)
  obtain name child where c: "c = (name, child)" by (cases c)
  from Cons c show ?case by (cases child) auto
qed

lemma distinct_visits:
  "proper_names node \<Longrightarrow> distinct (map fst (visits path node))"
  "proper_children names \<Longrightarrow> distinct (map fst names) \<Longrightarrow>
     distinct (map fst (visits_children path names))"
proof (induction path node and path names rule: visits_visits_children.induct)
  case (1 path info listing_err names)
  show ?case
  proof (cases "IsDir info \<and> listing_err = None")
    case False
    then show ?thesis by (auto split: option.splits)
  next
    case True
    with "1.prems" "1.IH" have d: "distinct (map fst (visits_children path names))" by simp
    have "path \<notin> fst ` set (visits_children path names)"
    proof
      assume "path \<in> fst ` set (visits_children path names)"
      then obtain v where "v \<in> set (visits_children path names)" "fst v = path" by auto
      with visits_below(2) [of v path names] obtain n where "below (Join path n) path" by auto
      then show False by (auto dest: below_Join_neq)
    qed
    with d True show ?thesis by simp
  qed
next
  case (2 path)
  then show ?case by simp
next
  case (3 path name err names)
  from "3.prems" have n: "CHR ''/'' \<notin> set name" and p: "proper_children names"
    and f: "name \<notin> fst ` set names" and d: "distinct (map fst names)"
    by simp_all
  have "Join path name \<notin> fst ` set (visits_children path names)"
  proof
    assume "Join path name \<in> fst ` set (visits_children path names)"
    then obtain v where "v \<in> set (visits_children path names)" "fst v = Join path name" by auto
    with visits_below(2) [of v path names] obtain n' where
      n': "n' \<in> fst ` set names" "below (Join path n') (Join path name)" by auto
    have "below (Join path name) (Join path name)" by (simp add: below_def)
    from below_Join_same_name [OF n proper_children_names [OF p n'(1)] this n'(2)] n'(1) f
    show False by simp
  qed
  with "3.IH" [OF p d] show ?case by simp
next
  case (4 path name node names)
  from "4.prems" have n: "CHR ''/'' \<notin> set name" and pn: "proper_names node"
    and p: "proper_children names"
    and f: "name \<notin> fst ` set names" and d: "distinct (map fst names)"
    by simp_all
  have "fst v \<noteq> fst w"
    if v: "v \<in> set (visits (Join path name) node)"
      and w: "w \<in> set (visits_children path names)" for v w
  proof
    assume e: "fst v = fst w"
    from visits_below(1) [OF v] have b: "below (Join path name) (fst w)" by (simp add: e)
    from visits_below(2) [OF w] obtain n' where
      n': "n' \<in> fst ` set names" "below (Join path n') (fst w)" by auto
    from below_Join_same_name [OF n proper_children_names [OF p n'(1)] b n'(2)] n'(1) f
    show False by simp
  qed
  then have "fst ` set (visits (Join path name) node) \<inter>
             fst ` set (visits_children path names) = {}"
    by (auto simp: image_iff)
  with "4.IH"(1) [OF pn] "4.IH"(2) [OF p d] show ?case by simp
qed

lemma nondirs_fst_subset: "fst ` set (nondirs vs) \<subseteq> fst ` set vs"
  by (induction vs rule: nondirs.induct) auto

lemma distinct_nondirs:
  "distinct (map fst vs) \<Longrightarrow> distinct (map fst (nondirs vs))"
proof (induction vs rule: nondirs.induct)
  case 1
  then show ?case by simp
next
  case (2 path err vs)
  then show ?case by simp
next
  case (3 path info err vs)
  with nondirs_fst_subset [of vs] show ?case by auto
qed

lemma distinct_drop_common_prefix:
  assumes "distinct ps" and "\<And>p. p \<in> set ps \<Longrightarrow> take k p = pre"
  shows "distinct (map (drop k) ps)"
proof -
  have "inj_on (drop k) (set ps)"
  proof (rule inj_onI)
    fix p q assume "p \<in> set ps" "q \<in> set ps" "drop k p = drop k q"
    with assms(2) have "take k p @ drop k p = take k q @ drop k q" by simp
    then show "p = q" by simp
  qed
  with assms(1) show ?thesis by (simp add: distinct_map)
qed

lemma Rel_name:
  "Rel env root p = Inr name \<Longrightarrow> p \<noteq> root \<Longrightarrow> name = drop (Suc (length root)) p"
  by (auto simp: Rel_def split: option.splits if_splits)

lemma written_names:
  assumes "list_all2 (\<lambda>e pf. Rel env root (fst pf) = Inr (fh_Name (hdr e))) new pfs"
      and "\<And>pf. pf \<in> set pfs \<Longrightarrow> fst pf \<noteq> root"
  shows "map (fh_Name \<circ> hdr) new = map (drop (Suc (length root))) (map fst pfs)"
  using assms
  by (induction new pfs rule: list_all2_induct) (auto dest: Rel_name)

lemma run_children_distinct:
  assumes "proper_children names" and "distinct (map fst names)"
      and "run (walkFn env root) (visits_children root names) a = (r, a')"
      and "entries a = []"
  shows "distinct (map (fh_Name \<circ> hdr) (entries a'))"
proof -
  let ?vs = "visits_children root names"
  from run_written [OF assms(3)] assms(4) obtain n where
    new: "list_all2 (\<lambda>e pf. Rel env root (fst pf) = Inr (fh_Name (hdr e)))
            (entries a') (take n (nondirs ?vs))"
    by auto
  have pre: "take (Suc (length root)) p = root @ ''/'' \<and> p \<noteq> root"
    if "p \<in> fst ` set (nondirs ?vs)" for p
  proof -
    from that nondirs_fst_subset [of ?vs] obtain v where "v \<in> set ?vs" "fst v = p" by auto
    with visits_below(2) [of v root names] obtain m where "below (Join root m) p" by auto
    then show ?thesis by (simp add: below_Join_prefix below_Join_neq)
  qed
  have sub: "set (take n (nondirs ?vs)) \<subseteq> set (nondirs ?vs)" by (rule set_take_subset)
  have "distinct (map fst ?vs)" using assms(1,2) by (rule distinct_visits(2))
  then have "distinct (map fst (nondirs ?vs))" by (rule distinct_nondirs)
  then have "distinct (take n (map fst (nondirs ?vs)))" by (rule distinct_take)
  then have d: "distinct (map fst (take n (nondirs ?vs)))" by (simp add: take_map)
  have "map (fh_Name \<circ> hdr) (entries a') =
          map (drop (Suc (length root))) (map fst (take n (nondirs ?vs)))"
    using new
  proof (rule written_names)
    fix pf assume "pf \<in> set (take n (nondirs ?vs))"
    with sub have "fst pf \<in> fst ` set (nondirs ?vs)" by auto
    then show "fst pf \<noteq> root" using pre by simp
  qed
  moreover have "distinct (map (drop (Suc (length root))) (map fst (take n (nondirs ?vs))))"
    using d
  proof (rule distinct_drop_common_prefix)
    fix p assume "p \<in> set (map fst (take n (nondirs ?vs)))"
    with sub have "p \<in> fst ` set (nondirs ?vs)" by auto
    then show "take (Suc (length root)) p = root @ ''/''" using pre by simp
  qed
  ultimately show ?thesis by simp
qed

lemma run_single_distinct:
  assumes "run (walkFn env root) [v] a = (r, a')" and "entries a = []"
  shows "distinct (map (fh_Name \<circ> hdr) (entries a'))"
proof -
  from run_written [OF assms(1)] assms(2) obtain n where
    "list_all2 (\<lambda>e pf. Rel env root (fst pf) = Inr (fh_Name (hdr e)))
       (entries a') (take n (nondirs [v]))"
    by auto
  then have "length (entries a') = length (take n (nondirs [v]))"
    by (rule list_all2_lengthD)
  also have "\<dots> \<le> length (nondirs [v])" by simp
  also have "\<dots> \<le> 1"
  proof -
    obtain path info err where "v = (path, info, err)" by (cases v)
    then show ?thesis by (cases info) simp_all
  qed
  finally have "length (map (fh_Name \<circ> hdr) (entries a')) \<le> 1" by simp
  then show ?thesis by (cases "entries a'") auto
qed

lemma ArchiveContent_distinct:
  "wrote_distinct_names a (snd (ArchiveContent env content infilename a))"
  by (auto simp: ArchiveContent_def wrote_distinct_names_def op_defs
        split: option.splits if_splits)

lemma ArchiveFile_distinct:
  "wrote_distinct_names a (snd (ArchiveFile env infilename a))"
  by (auto simp: ArchiveFile_def wrote_distinct_names_def op_defs
        split: option.splits sum.splits if_splits)

lemma ArchiveContent_stored:
  "ArchiveContent env content infilename a = (Return None, a') \<Longrightarrow>
     distinct (map stored_name (entries a'))"
  by (auto simp: ArchiveContent_def op_defs split: option.splits if_splits)

lemma ArchiveFile_stored:
  "ArchiveFile env infilename a = (Return None, a') \<Longrightarrow>
     distinct (map stored_name (entries a'))"
  by (auto simp: ArchiveFile_def op_defs split: option.splits sum.splits if_splits)

lemma write_all_fit:
  "write_all env content keys a = (None, a') \<Longrightarrow> k \<in> set keys \<Longrightarrow> length k \<le> 65535"
proof (induction keys arbitrary: a)
  case Nil
  then show ?case by simp
next
  case (Cons key keys)
  from Cons.prems(1) obtain f a1 a2 where
    c: "Create env key a = (Inr f, a1)" and w: "Write env f (index content key) a1 = (None, a2)"
    and rest: "write_all env content keys a2 = (None, a')"
    by (auto split: prod.splits sum.splits option.splits)
  show ?case
  proof (cases "k = key")
    case True
    with write_one_fits [OF c] show ?thesis by simp
  next
    case False
    with Cons.prems(2) have "k \<in> set keys" by simp
    from Cons.IH [OF rest this] show ?thesis .
  qed
qed

lemma ArchiveMultiple_opened:
  assumes "distinct (range_keys content)" and "os_Create_err env (filepath a) = None"
      and "ArchiveMultiple env content a = (r, a')"
  shows "distinct (map (fh_Name \<circ> hdr) (entries a'))"
    and "r = Return None \<Longrightarrow> distinct (map stored_name (entries a'))"
proof -
  define a1 where "a1 = a\<lparr>filewriter := True, writer := True, creates := Suc (creates a),
                          entries := [], finalized := False, synced := False\<rparr>"
  let ?keys = "sort_Strings (range_keys content)"
  obtain r2 a2 where w: "write_all env content ?keys a1 = (r2, a2)"
    by (cases "write_all env content ?keys a1")
  from assms(2,3) w have r: "r = Return r2" and a': "a' = close env a2"
    by (simp_all add: ArchiveMultiple_def open_archive_def a1_def)
  from write_all_names [OF w] obtain n where
    "map (fh_Name \<circ> hdr) (entries a2) = take n ?keys"
    by (auto simp: a1_def)
  with assms(1) show "distinct (map (fh_Name \<circ> hdr) (entries a'))"
    by (simp add: a' close_entries sort_Strings_def)
  assume "r = Return None"
  with r w have s: "write_all env content ?keys a1 = (None, a2)" by simp
  from write_all_success [OF s]
  have e: "entries a' = map (\<lambda>k. \<lparr>hdr = create_header k, data = index content k\<rparr>) ?keys"
    by (simp add: a' close_entries a1_def)
  have "stored_name \<lparr>hdr = create_header k, data = index content k\<rparr> = k" if "k \<in> set ?keys" for k
    using write_all_fit [OF s that] by (simp add: stored_name_fit create_header_def)
  then have "map stored_name (entries a') = ?keys"
    by (simp add: e comp_def map_idI)
  with assms(1) show "distinct (map stored_name (entries a'))"
    by (simp add: sort_Strings_def)
qed

lemma ArchiveMultiple_distinct:
  assumes "distinct (range_keys content)"
  shows "wrote_distinct_names a (snd (ArchiveMultiple env content a))"
proof (cases "os_Create_err env (filepath a)")
  case (Some err)
  then show ?thesis
    by (simp add: ArchiveMultiple_def open_archive_def wrote_distinct_names_def)
next
  case None
  from ArchiveMultiple_opened(1) [OF assms None] show ?thesis
    by (simp add: wrote_distinct_names_def prod_eq_iff)
qed

lemma ArchiveMultiple_stored:
  assumes "distinct (range_keys content)"
      and "ArchiveMultiple env content a = (Return None, a')"
  shows "distinct (map stored_name (entries a'))"
proof -
  from assms(2) have "os_Create_err env (filepath a) = None"
    by (auto simp: ArchiveMultiple_def open_archive_def split: option.splits)
  from ArchiveMultiple_opened(2) [OF assms(1) this assms(2)] show ?thesis by simp
qed

lemma Walk_distinct:
  assumes "\<forall>node. os_Lstat env root = Inr node \<longrightarrow> proper_names node"
      and "Walk env root (walkFn env root) a = (r, a')"
      and "entries a = []"
  shows "distinct (map (fh_Name \<circ> hdr) (entries a'))"
proof (cases "os_Lstat env root")
  case (Inl err)
  with assms(2,3) show ?thesis by (simp add: Walk_def walkFn_nil_info)
next
  case (Inr node)
  obtain info listing_err names where node: "node = Node info listing_err names"
    by (cases node)
  from assms(1) Inr node have p: "proper_children names" and d: "distinct (map fst names)"
    by simp_all
  from assms(2) Inr have w: "run (walkFn env root) (visits root node) a = (r, a')"
    by (simp add: Walk_def walk_run)
  show ?thesis
  proof (cases "IsDir info \<and> listing_err = None")
    case True
    with w node have "run (walkFn env root) (visits_children root names) a = (r, a')"
      by (simp add: walkFn_dir)
    from run_children_distinct [OF p d this assms(3)] show ?thesis .
  next
    case False
    then have "\<exists>v. visits root node = [v]"
      by (cases "IsDir info"; cases listing_err) (simp_all add: node)
    then obtain v where "visits root node = [v]" ..
    with w have "run (walkFn env root) [v] a = (r, a')" by simp
    from run_single_distinct [OF this assms(3)] show ?thesis .
  qed
qed

lemma ArchiveDir_opened:
  assumes "\<forall>node. os_Lstat env indirname = Inr node \<longrightarrow> proper_names node"
      and "assertValidDir env indirname = Inr fi"
      and "os_Create_err env (filepath a) = None"
  shows "distinct (map (fh_Name \<circ> hdr) (entries (snd (ArchiveDir env indirname a))))"
proof -
  define a1 where "a1 = a\<lparr>filewriter := True, writer := True, creates := Suc (creates a),
                          entries := [], finalized := False, synced := False\<rparr>"
  obtain r a2 where w: "Walk env indirname (walkFn env indirname) a1 = (r, a2)"
    by (cases "Walk env indirname (walkFn env indirname) a1")
  have "entries a1 = []" by (simp add: a1_def)
  from Walk_distinct [OF assms(1) w this]
  have "distinct (map (fh_Name \<circ> hdr) (entries (close env a2)))"
    by (simp add: close_entries)
  with assms(2,3) w show ?thesis
    by (simp add: ArchiveDir_def open_archive_def a1_def)
qed

lemma ArchiveDir_distinct:
  assumes "\<forall>node. os_Lstat env indirname = Inr node \<longrightarrow> proper_names node"
  shows "wrote_distinct_names a (snd (ArchiveDir env indirname a))"
proof (cases "assertValidDir env indirname")
  case (Inl err)
  then show ?thesis by (simp add: ArchiveDir_def wrote_distinct_names_def)
next
  case (Inr fi)
  show ?thesis
  proof (cases "os_Create_err env (filepath a)")
    case (Some err)
    with Inr show ?thesis
      by (simp add: ArchiveDir_def open_archive_def wrote_distinct_names_def)
  next
    case None
    from ArchiveDir_opened [OF assms Inr None] show ?thesis
      by (simp add: wrote_distinct_names_def)
  qed
qed

lemma archives_stored:
  "list_all2 (archives env root) es pfs \<Longrightarrow> map stored_name es = map (fh_Name \<circ> hdr) es"
  by (induction es pfs rule: list_all2_induct) (simp_all add: archives_def)

lemma ArchiveDir_stored:
  assumes "\<forall>node. os_Lstat env indirname = Inr node \<longrightarrow> proper_names node"
      and "ArchiveDir env indirname a = (Return None, a')"
  shows "distinct (map stored_name (entries a'))"
proof -
  from assms(2) obtain fi where v: "assertValidDir env indirname = Inr fi"
    by (auto simp: ArchiveDir_def split: sum.splits)
  from assms(2) v have c: "os_Create_err env (filepath a) = None"
    by (auto simp: ArchiveDir_def open_archive_def split: option.splits)
  from assms(2) v c obtain node where l: "os_Lstat env indirname = Inr node"
    by (cases "os_Lstat env indirname")
       (auto simp: ArchiveDir_def open_archive_def Walk_def walkFn_nil_info)
  from ArchiveDir_success [OF l assms(2)]
  have e: "map stored_name (entries a') = map (fh_Name \<circ> hdr) (entries a')"
    by (auto dest: archives_stored)
  from ArchiveDir_opened [OF assms(1) v c] assms(2)
  have d: "distinct (map (fh_Name \<circ> hdr) (entries a'))" by simp
  show ?thesis unfolding e by (rule d)
qed

lemma long_name_length [simp]: "length (long_name n) = n"
  by (simp add: long_name_def)

lemma long_name_eq [simp]: "long_name m = long_name n \<longleftrightarrow> m = n"
  by (auto dest: arg_cong [where f = length])

lemma long_name_le [simp]: "long_name m \<le> long_name n \<longleftrightarrow> m \<le> n"
  unfolding long_name_def
proof (induction m arbitrary: n)
  case 0
  then show ?case by (cases n) simp_all
next
  case (Suc m)
  then show ?case by (cases n) simp_all
qed

lemma long_name_take [simp]: "take k (long_name n) = long_name (min k n)"
  by (simp add: long_name_def)

text \<open>
  C9, as amended. A call of any of the four operations leaves the state as it was or leaves
  a container in which the names of the headers, as the archiver passed them to the writer,
  are pairwise distinct, on every way out of the call; and when the call returns nil, the
  names as the container stores them are pairwise distinct. For \<^verbatim>\<open>ArchiveMultiple\<close> the
  keys of the map are distinct, as the keys of a map are; for \<^verbatim>\<open>ArchiveDir\<close> the names in
  each directory under the root are distinct and contain no separator, as the names in a
  directory are.
\<close>

theorem entry_names_distinct:
  assumes "distinct (range_keys files)"
      and "\<forall>node. os_Lstat env indirname = Inr node \<longrightarrow> proper_names node"
  shows "wrote_distinct_names a (snd (ArchiveContent env content entryname a))
         \<and> wrote_distinct_names a (snd (ArchiveFile env infilename a))
         \<and> wrote_distinct_names a (snd (ArchiveDir env indirname a))
         \<and> wrote_distinct_names a (snd (ArchiveMultiple env files a))
         \<and> (fst (ArchiveContent env content entryname a) = Return None \<longrightarrow>
              distinct (map stored_name (entries (snd (ArchiveContent env content entryname a)))))
         \<and> (fst (ArchiveFile env infilename a) = Return None \<longrightarrow>
              distinct (map stored_name (entries (snd (ArchiveFile env infilename a)))))
         \<and> (fst (ArchiveDir env indirname a) = Return None \<longrightarrow>
              distinct (map stored_name (entries (snd (ArchiveDir env indirname a)))))
         \<and> (fst (ArchiveMultiple env files a) = Return None \<longrightarrow>
              distinct (map stored_name (entries (snd (ArchiveMultiple env files a)))))"
proof -
  have "distinct (map stored_name (entries (snd (ArchiveContent env content entryname a))))"
    if "fst (ArchiveContent env content entryname a) = Return None"
    using that ArchiveContent_stored [of env content entryname a]
    by (cases "ArchiveContent env content entryname a") simp
  moreover
  have "distinct (map stored_name (entries (snd (ArchiveFile env infilename a))))"
    if "fst (ArchiveFile env infilename a) = Return None"
    using that ArchiveFile_stored [of env infilename a]
    by (cases "ArchiveFile env infilename a") simp
  moreover
  have "distinct (map stored_name (entries (snd (ArchiveDir env indirname a))))"
    if "fst (ArchiveDir env indirname a) = Return None"
    using that ArchiveDir_stored [OF assms(2), of a]
    by (cases "ArchiveDir env indirname a") simp
  moreover
  have "distinct (map stored_name (entries (snd (ArchiveMultiple env files a))))"
    if "fst (ArchiveMultiple env files a) = Return None"
    using that ArchiveMultiple_stored [OF assms(1), of env a]
    by (cases "ArchiveMultiple env files a") simp
  ultimately show ?thesis
    using ArchiveContent_distinct ArchiveFile_distinct ArchiveDir_distinct [OF assms(2)]
      ArchiveMultiple_distinct [OF assms(1)]
    by blast
qed

theorem entry_names_distinct_witness:
  "distinct (range_keys [(''b.txt'', ''2''), (''a.txt'', ''1'')])
   \<and> os_Lstat example_env ''d'' = Inr example_tree
   \<and> proper_names example_tree
   \<and> wrote_distinct_names (newZipArchiver ''out.zip'')
        (snd (ArchiveContent example_env ''1'' ''a.txt'' (newZipArchiver ''out.zip'')))
   \<and> wrote_distinct_names (newZipArchiver ''out.zip'')
        (snd (ArchiveFile example_env ''d/y.txt'' (newZipArchiver ''out.zip'')))
   \<and> wrote_distinct_names (newZipArchiver ''out.zip'')
        (snd (ArchiveDir example_env ''d'' (newZipArchiver ''out.zip'')))
   \<and> wrote_distinct_names (newZipArchiver ''out.zip'')
        (snd (ArchiveMultiple example_env [(''b.txt'', ''2''), (''a.txt'', ''1'')]
               (newZipArchiver ''out.zip'')))
   \<and> fst (ArchiveDir example_env ''d'' (newZipArchiver ''out.zip'')) = Return None
   \<and> distinct (map stored_name
        (entries (snd (ArchiveDir example_env ''d'' (newZipArchiver ''out.zip'')))))
   \<and> map stored_name
        (entries (snd (ArchiveDir example_env ''d'' (newZipArchiver ''out.zip'')))) =
      [''sub/x.txt'', ''y.txt'']"
proof -
  have d: "distinct (range_keys [(''b.txt'', ''2''), (''a.txt'', ''1'')])"
    by (simp add: range_keys_def)
  have l: "os_Lstat example_env ''d'' = Inr example_tree"
    by (simp add: example_env_def)
  have p: "proper_names example_tree"
    by (simp add: example_tree_def)
  from l p have h: "\<forall>node. os_Lstat example_env ''d'' = Inr node \<longrightarrow> proper_names node"
    by simp
  have r: "fst (ArchiveDir example_env ''d'' (newZipArchiver ''out.zip'')) = Return None"
    by (simp add: dir_defs example_defs)
  have n: "map stored_name
        (entries (snd (ArchiveDir example_env ''d'' (newZipArchiver ''out.zip'')))) =
      [''sub/x.txt'', ''y.txt'']"
    by (simp add: dir_defs example_defs stored_name_def)
  from entry_names_distinct [OF d h, where a = "newZipArchiver ''out.zip''"
         and content = "''1''" and entryname = "''a.txt''" and infilename = "''d/y.txt''"]
    d l p r n
  show ?thesis by blast
qed

text \<open>
  C9, as the claim states it, fails on a way out with an error. For a map with two keys made
  of the same byte, 4464 and 70000 bytes long, \<^verbatim>\<open>ArchiveMultiple\<close> writes the shorter
  key; \<^verbatim>\<open>Create\<close> then records the header of the longer key and fails with
  \<^verbatim>\<open>errLongName\<close>, which the call returns; the deferred \<^verbatim>\<open>close\<close> finalizes the
  container with both headers, and the second is stored with a name of 4464 bytes, the name
  of the first.
\<close>

theorem entry_names_distinct_counterexample:
  "distinct (range_keys long_files)
   \<and> fst (ArchiveMultiple example_env long_files (newZipArchiver ''out.zip'')) =
       Return (Some errLongName)
   \<and> map (fh_Name \<circ> hdr)
        (entries (snd (ArchiveMultiple example_env long_files (newZipArchiver ''out.zip'')))) =
      [long_name 4464, long_name 70000]
   \<and> map stored_name
        (entries (snd (ArchiveMultiple example_env long_files (newZipArchiver ''out.zip'')))) =
      [long_name 4464, long_name 4464]
   \<and> finalized (snd (ArchiveMultiple example_env long_files (newZipArchiver ''out.zip'')))
   \<and> \<not> distinct (map stored_name
        (entries (snd (ArchiveMultiple example_env long_files (newZipArchiver ''out.zip'')))))"
proof -
  let ?run = "ArchiveMultiple example_env long_files (newZipArchiver ''out.zip'')"
  have d: "distinct (range_keys long_files)"
    by (simp add: range_keys_def long_files_def)
  have s: "sort_Strings (range_keys long_files) = [long_name 4464, long_name 70000]"
    by (simp add: sort_Strings_def range_keys_def long_files_def)
  have i: "index long_files (long_name 4464) = ''1''"
    by (simp add: index_def long_files_def)
  have r: "fst ?run = Return (Some errLongName)"
    by (simp add: ArchiveMultiple_def op_defs s i example_env_def)
  have p: "map (fh_Name \<circ> hdr) (entries (snd ?run)) = [long_name 4464, long_name 70000]"
    by (simp add: ArchiveMultiple_def op_defs s i example_env_def)
  have n: "map stored_name (entries (snd ?run)) = [long_name 4464, long_name 4464]"
    by (simp add: ArchiveMultiple_def op_defs s i example_env_def stored_name_def)
  have f: "finalized (snd ?run)"
    by (simp add: ArchiveMultiple_def op_defs s i example_env_def newZipArchiver_def)
  from n have "\<not> distinct (map stored_name (entries (snd ?run)))" by simp
  with d r p n f show ?thesis by blast
qed

end
